theory Spec2Isabelle
  imports Main "HOL-Library.Finite_Map"
begin

section \<open>Cell contents: the classes of namespace detail in cell.cpp\<close>

text \<open>
  Positions are an opaque key type \<open>'p\<close>: cell.cpp only compares them and uses them as
  keys of hash sets.

  Modelled from the spec: FormulaInterface (formula.h) is not among the sources. A
  formula object is modelled by what cell.cpp asks of it: its canonical expression
  (GetExpression), its ordered reference list (GetReferencedCells) and whether a
  memoised result is present (HasCache). ClearCache discards the memoised result.
\<close>

record 'p Formula =
  expression :: string
  references :: "'p list"
  has_cache :: bool

definition ClearCache :: "'p Formula \<Rightarrow> 'p Formula" where
  "ClearCache f = f\<lparr>has_cache := False\<rparr>"

text \<open>
  The three subclasses of detail::Impl. TextImpl keeps the raw text, FormulaImpl owns
  the formula object.
\<close>

datatype 'p Impl = EmptyImpl | TextImpl string | FormulaImpl "'p Formula"

text \<open>
  Cell::Value is a variant of a string, a double and a FormulaError; the last two are
  produced only by the formula evaluator and stay type parameters.
\<close>

datatype ('d, 'e) Value = StringValue string | DoubleValue 'd | FormulaErrorValue 'e

text \<open>
  Impl::GetText. FORMULA_SIGN is a character constant of common.h and is a parameter.
\<close>

fun Impl_GetText :: "char \<Rightarrow> 'p Impl \<Rightarrow> string" where
  "Impl_GetText FORMULA_SIGN EmptyImpl = []"
| "Impl_GetText FORMULA_SIGN (TextImpl text) = text"
| "Impl_GetText FORMULA_SIGN (FormulaImpl f) = FORMULA_SIGN # expression f"

text \<open>
  Impl::GetValue. ESCAPE_SIGN is a character constant of common.h; Evaluate is the
  evaluator of the formula object, which returns a double or a FormulaError. Both are
  parameters. \<open>text_.substr(1)\<close> on a non-empty string is the tail.
\<close>

fun Impl_GetValue ::
  "char \<Rightarrow> ('p Formula \<Rightarrow> 's \<Rightarrow> 'd + 'e) \<Rightarrow> 's \<Rightarrow> 'p Impl \<Rightarrow> ('d, 'e) Value" where
  "Impl_GetValue ESCAPE_SIGN Evaluate sheet EmptyImpl = StringValue []"
| "Impl_GetValue ESCAPE_SIGN Evaluate sheet (TextImpl text) =
     (if text \<noteq> [] \<and> hd text = ESCAPE_SIGN then StringValue (tl text)
      else StringValue text)"
| "Impl_GetValue ESCAPE_SIGN Evaluate sheet (FormulaImpl f) =
     (case Evaluate f sheet of
        Inl v \<Rightarrow> DoubleValue v
      | Inr e \<Rightarrow> FormulaErrorValue e)"

fun Impl_GetReferencedCells :: "'p Impl \<Rightarrow> 'p list" where
  "Impl_GetReferencedCells EmptyImpl = []"
| "Impl_GetReferencedCells (TextImpl text) = []"
| "Impl_GetReferencedCells (FormulaImpl f) = references f"

section \<open>Cells and the sheet's cell table\<close>

text \<open>
  A Cell object: \<open>impl_\<close> is a unique_ptr that the constructor leaves null (\<open>None\<close>);
  \<open>referring_cells_\<close> and \<open>referenced_cells_\<close> are unordered sets of positions. The loops
  of cell.cpp iterate over them in an order C++ leaves open, so they are lists here,
  iterated front to back, with set-like insertion and erasure; the theorems below speak
  about the \<open>set\<close> of these lists only. The field \<open>pos_\<close> is the key under which the
  sheet's table holds the cell.
\<close>

record 'p Cell =
  impl :: "'p Impl option"
  referring_cells :: "'p list"
  referenced_cells :: "'p list"

definition new_Cell :: "'p Cell" where
  "new_Cell = \<lparr>impl = None, referring_cells = [], referenced_cells = []\<rparr>"

text \<open>
  Cells reach one another only through the sheet (\<open>sheet_.GetCell\<close>), so the state is
  the sheet's table: a finite map from positions to Cell objects.

  Modelled from the spec: SheetInterface (common.h) is not among the sources. GetCell
  returns the cell at a position, or absent.
\<close>

type_synonym 'p Sheet = "('p, 'p Cell) fmap"

definition GetCell :: "'p Sheet \<Rightarrow> 'p \<Rightarrow> 'p Cell option" where
  "GetCell sheet pos = fmlookup sheet pos"

text \<open>
  The read operations of Cell dereference \<open>impl_\<close>; on a null pointer the behaviour is
  undefined, which is the result \<open>None\<close>.
\<close>

definition GetText :: "char \<Rightarrow> 'p Cell \<Rightarrow> string option" where
  "GetText FORMULA_SIGN cell = map_option (Impl_GetText FORMULA_SIGN) (impl cell)"

definition GetValue ::
  "char \<Rightarrow> ('p Formula \<Rightarrow> 's \<Rightarrow> 'd + 'e) \<Rightarrow> 's \<Rightarrow> 'p Cell \<Rightarrow> ('d, 'e) Value option" where
  "GetValue ESCAPE_SIGN Evaluate sheet cell =
     map_option (Impl_GetValue ESCAPE_SIGN Evaluate sheet) (impl cell)"

definition GetReferencedCells :: "'p Cell \<Rightarrow> 'p list option" where
  "GetReferencedCells cell = map_option Impl_GetReferencedCells (impl cell)"

section \<open>Cache invalidation: Cell::ClearCaches\<close>

text \<open>
  \<open>dynamic_cast<detail::FormulaImpl*>(cell->impl_.get())\<close>: the formula object of a cell
  whose content is a FormulaImpl, and a null pointer (\<open>None\<close>) for any other content or
  for a null \<open>impl_\<close>.
\<close>

definition formula_of :: "'p Cell \<Rightarrow> 'p Formula option" where
  "formula_of cell = (case impl cell of Some (FormulaImpl f) \<Rightarrow> Some f | _ \<Rightarrow> None)"

definition set_formula :: "'p Formula \<Rightarrow> 'p Cell \<Rightarrow> 'p Cell" where
  "set_formula f cell = cell\<lparr>impl := Some (FormulaImpl f)\<rparr>"

text \<open>
  ClearCaches walks a list of referring positions. It dereferences the cell pointer and
  the formula pointer without a null check: an absent cell, or a cell that holds no
  formula, is undefined behaviour (\<open>None\<close>). A cell without a cache is skipped; a cell
  with a cache has it cleared and its own referring set walked, in the sheet as the
  clearing left it; there is no visited set.
\<close>

function ClearCaches :: "'p list \<Rightarrow> 'p Sheet \<Rightarrow> 'p Sheet option" where
  "ClearCaches [] sheet = Some sheet"
| "ClearCaches (cell_pos # rest) sheet =
     (case GetCell sheet cell_pos of
        None \<Rightarrow> None
      | Some cell \<Rightarrow>
          (case formula_of cell of
             None \<Rightarrow> None
           | Some f \<Rightarrow>
               if \<not> has_cache f then ClearCaches rest sheet
               else (case ClearCaches (referring_cells cell)
                            (fmupd cell_pos (set_formula (ClearCache f) cell) sheet) of
                       None \<Rightarrow> None
                     | Some sheet' \<Rightarrow> ClearCaches rest sheet')))"
  by pat_completeness auto

text \<open>
  The walk ends because every nested call follows the clearing of one more cache: the
  number of cells that hold a cache is the measure.
\<close>

definition has_cache_at :: "'p Sheet \<Rightarrow> 'p \<Rightarrow> bool" where
  "has_cache_at sheet pos =
     (case GetCell sheet pos of
        None \<Rightarrow> False
      | Some cell \<Rightarrow>
          (case impl cell of
             Some (FormulaImpl f) \<Rightarrow> has_cache f
           | _ \<Rightarrow> False))"

definition cached_cells :: "'p Sheet \<Rightarrow> 'p set" where
  "cached_cells sheet = {pos \<in> fmdom' sheet. has_cache_at sheet pos}"

lemma finite_cached_cells: "finite (cached_cells sheet)"
  by (simp add: cached_cells_def)

lemma has_cache_at_iff:
  "has_cache_at sheet pos \<longleftrightarrow>
     (\<exists>cell f. GetCell sheet pos = Some cell \<and> formula_of cell = Some f \<and> has_cache f)"
  by (auto simp: has_cache_at_def formula_of_def split: option.splits Impl.splits)

lemma cached_cells_iff: "pos \<in> cached_cells sheet \<longleftrightarrow> has_cache_at sheet pos"
  by (auto simp: cached_cells_def has_cache_at_def GetCell_def fmlookup_dom'_iff split: option.splits)

lemma has_cache_at_clear:
  "has_cache_at (fmupd pos (set_formula (ClearCache f) cell) sheet) q
     \<longleftrightarrow> q \<noteq> pos \<and> has_cache_at sheet q"
  by (auto simp: has_cache_at_def GetCell_def set_formula_def ClearCache_def)

lemma cached_cells_clear:
  "cached_cells (fmupd pos (set_formula (ClearCache f) cell) sheet) = cached_cells sheet - {pos}"
  by (auto simp: cached_cells_iff has_cache_at_clear)

lemma ClearCaches_cached_subset:
  "ClearCaches_dom (refs, sheet) \<Longrightarrow> ClearCaches refs sheet = Some sheet'
     \<Longrightarrow> cached_cells sheet' \<subseteq> cached_cells sheet"
proof (induction refs sheet arbitrary: sheet' rule: ClearCaches.pinduct)
  case (1 sheet)
  then show ?case by (simp add: ClearCaches.psimps)
next
  case (2 cell_pos rest sheet)
  from "2.prems" "2.hyps" obtain cell f where
    c: "GetCell sheet cell_pos = Some cell" and i: "formula_of cell = Some f"
    by (auto simp: ClearCaches.psimps split: option.splits)
  show ?case
  proof (cases "has_cache f")
    case False
    with "2.prems" "2.hyps" c i have "ClearCaches rest sheet = Some sheet'"
      by (simp add: ClearCaches.psimps)
    with "2.IH"(1)[OF c i] False show ?thesis by simp
  next
    case True
    let ?s1 = "fmupd cell_pos (set_formula (ClearCache f) cell) sheet"
    from "2.prems" "2.hyps" c i True obtain s2 where
      r1: "ClearCaches (referring_cells cell) ?s1 = Some s2" and
      r2: "ClearCaches rest s2 = Some sheet'"
      by (auto simp: ClearCaches.psimps split: option.splits)
    have "cached_cells s2 \<subseteq> cached_cells ?s1"
      using "2.IH"(2)[OF c i _ r1] True by simp
    moreover have "cached_cells sheet' \<subseteq> cached_cells s2"
      using "2.IH"(3)[OF c i _ r1 r2] True by simp
    ultimately show ?thesis
      by (auto simp: cached_cells_clear)
  qed
qed

termination ClearCaches
proof (relation "measures [\<lambda>(refs, sheet). card (cached_cells sheet), \<lambda>(refs, sheet). length refs]",
       goal_cases)
  case 1
  show ?case by simp
next
  case (2 cell_pos rest sheet cell f)
  show ?case by simp
next
  case (3 cell_pos rest sheet cell f)
  then have "cell_pos \<in> cached_cells sheet"
    by (auto simp: cached_cells_iff has_cache_at_iff)
  then have "card (cached_cells sheet - {cell_pos}) < card (cached_cells sheet)"
    by (rule card_Diff1_less[OF finite_cached_cells])
  then show ?case by (simp add: cached_cells_clear)
next
  case (4 cell_pos rest sheet cell f sheet')
  then have m: "cell_pos \<in> cached_cells sheet"
    by (auto simp: cached_cells_iff has_cache_at_iff)
  have "cached_cells sheet' \<subseteq> cached_cells sheet - {cell_pos}"
    using ClearCaches_cached_subset[OF 4(5) 4(4)] by (simp add: cached_cells_clear)
  then have "cached_cells sheet' \<subset> cached_cells sheet" using m by auto
  then have "card (cached_cells sheet') < card (cached_cells sheet)"
    by (simp add: finite_cached_cells psubset_card_mono)
  then show ?case by simp
qed

section \<open>Cycle detection: Cell::CheckCircularError\<close>

text \<open>
  The recursive overload of CheckCircularError. It returns normally with the visited set
  it was given by reference (\<open>Passed\<close>), or throws CircularDependencyException.
  \<open>ref_cell->GetReferencedCells()\<close> dereferences the content pointer of the cell, which
  is undefined behaviour for a cell that was constructed and never set
  (\<open>NullDereference\<close>).
\<close>

datatype 'p check = Passed "'p set" | CircularDependencyException | NullDereference

function CheckCircularError_visit ::
  "'p Sheet \<Rightarrow> 'p \<Rightarrow> 'p list \<Rightarrow> 'p set \<Rightarrow> 'p check" where
  "CheckCircularError_visit sheet this_cell_pos [] visited_cells = Passed visited_cells"
| "CheckCircularError_visit sheet this_cell_pos (ref_cell_pos # rest) visited_cells =
     (if ref_cell_pos \<in> visited_cells
      then CheckCircularError_visit sheet this_cell_pos rest visited_cells
      else if this_cell_pos = ref_cell_pos then CircularDependencyException
      else (case GetCell sheet ref_cell_pos of
              None \<Rightarrow>
                CheckCircularError_visit sheet this_cell_pos rest
                  (insert ref_cell_pos visited_cells)
            | Some ref_cell \<Rightarrow>
                (case GetReferencedCells ref_cell of
                   None \<Rightarrow> NullDereference
                 | Some refs \<Rightarrow>
                     (case CheckCircularError_visit sheet this_cell_pos refs
                             (insert ref_cell_pos visited_cells) of
                        Passed visited' \<Rightarrow>
                          CheckCircularError_visit sheet this_cell_pos rest visited'
                      | CircularDependencyException \<Rightarrow> CircularDependencyException
                      | NullDereference \<Rightarrow> NullDereference))))"
  by pat_completeness auto

definition referenced_anywhere :: "'p Sheet \<Rightarrow> 'p set" where
  "referenced_anywhere sheet =
     {q. \<exists>p cell refs. GetCell sheet p = Some cell \<and> GetReferencedCells cell = Some refs
           \<and> q \<in> set refs}"

lemma finite_referenced_anywhere: "finite (referenced_anywhere sheet)"
proof -
  have "referenced_anywhere sheet
          \<subseteq> (\<Union>p \<in> fmdom' sheet. \<Union>cell \<in> set_option (GetCell sheet p).
                \<Union>refs \<in> set_option (GetReferencedCells cell). set refs)"
    by (force simp: referenced_anywhere_def GetCell_def fmlookup_dom'_iff)
  moreover have "finite (\<Union>p \<in> fmdom' sheet. \<Union>cell \<in> set_option (GetCell sheet p).
                \<Union>refs \<in> set_option (GetReferencedCells cell). set refs)"
    by (intro finite_UN_I) auto
  ultimately show ?thesis by (rule finite_subset)
qed

definition unvisited :: "'p Sheet \<Rightarrow> 'p list \<Rightarrow> 'p set \<Rightarrow> 'p set" where
  "unvisited sheet refs visited = (referenced_anywhere sheet \<union> set refs) - visited"

lemma finite_unvisited: "finite (unvisited sheet refs visited)"
  by (simp add: unvisited_def finite_referenced_anywhere)

lemma CheckCircularError_visit_grows:
  "CheckCircularError_visit_dom (sheet, this, refs, visited)
     \<Longrightarrow> CheckCircularError_visit sheet this refs visited = Passed visited'
     \<Longrightarrow> visited \<subseteq> visited'"
proof (induction sheet this refs visited arbitrary: visited'
         rule: CheckCircularError_visit.pinduct)
  case (1 sheet this visited)
  then show ?case by (simp add: CheckCircularError_visit.psimps)
next
  case (2 sheet this r rest visited)
  show ?case
  proof (cases "r \<in> visited")
    case True
    with "2.prems" "2.hyps" "2.IH"(1) show ?thesis
      by (simp add: CheckCircularError_visit.psimps)
  next
    case nv: False
    with "2.prems" "2.hyps" have ne: "this \<noteq> r"
      by (auto simp: CheckCircularError_visit.psimps)
    show ?thesis
    proof (cases "GetCell sheet r")
      case None
      with "2.prems" "2.hyps" nv ne "2.IH"(2)[OF nv ne None, of visited'] show ?thesis
        by (auto simp: CheckCircularError_visit.psimps)
    next
      case (Some cell)
      with "2.prems" "2.hyps" nv ne obtain refs v1 where
        g: "GetReferencedCells cell = Some refs" and
        r1: "CheckCircularError_visit sheet this refs (insert r visited) = Passed v1" and
        r2: "CheckCircularError_visit sheet this rest v1 = Passed visited'"
        by (auto simp: CheckCircularError_visit.psimps split: option.splits check.splits)
      from "2.IH"(3)[OF nv ne Some g r1] "2.IH"(4)[OF nv ne Some g r1 r2]
      show ?thesis by auto
    qed
  qed
qed

termination CheckCircularError_visit
proof (relation "measures [\<lambda>(sheet, this, refs, visited). card (unvisited sheet refs visited),
                           \<lambda>(sheet, this, refs, visited). length refs]",
       goal_cases)
  case 1
  show ?case by simp
next
  case (2 sheet this r rest visited)
  then have "unvisited sheet rest visited = unvisited sheet (r # rest) visited"
    by (auto simp: unvisited_def)
  then show ?case by simp
next
  case (3 sheet this r rest visited)
  then have "unvisited sheet rest (insert r visited) \<subset> unvisited sheet (r # rest) visited"
    by (auto simp: unvisited_def)
  then show ?case
    by (simp add: psubset_card_mono[OF finite_unvisited])
next
  case (4 sheet this r rest visited cell refs)
  then have "set refs \<subseteq> referenced_anywhere sheet"
    by (auto simp: referenced_anywhere_def)
  with 4 have "unvisited sheet refs (insert r visited) \<subset> unvisited sheet (r # rest) visited"
    by (auto simp: unvisited_def)
  then show ?case
    by (simp add: psubset_card_mono[OF finite_unvisited])
next
  case (5 sheet this r rest visited cell refs v1)
  have "insert r visited \<subseteq> v1"
    using CheckCircularError_visit_grows[OF 5(6) 5(5)] .
  with 5 have "unvisited sheet rest v1 \<subset> unvisited sheet (r # rest) visited"
    by (auto simp: unvisited_def)
  then show ?case
    by (simp add: psubset_card_mono[OF finite_unvisited])
qed

definition CheckCircularError :: "'p Sheet \<Rightarrow> 'p \<Rightarrow> 'p list \<Rightarrow> 'p check" where
  "CheckCircularError sheet pos refs = CheckCircularError_visit sheet pos refs {}"

section \<open>Edge maintenance: Cell::EraseEdges and Cell::AddEdges\<close>

text \<open>
  The loop of EraseEdges over \<open>referenced_cells_\<close>: a position without a cell is
  skipped, any other cell loses \<open>pos\<close> from its referring set.
\<close>

fun EraseEdges_loop :: "'p \<Rightarrow> 'p list \<Rightarrow> 'p Sheet \<Rightarrow> 'p Sheet" where
  "EraseEdges_loop pos [] sheet = sheet"
| "EraseEdges_loop pos (cell_pos # rest) sheet =
     (case GetCell sheet cell_pos of
        None \<Rightarrow> EraseEdges_loop pos rest sheet
      | Some cell \<Rightarrow>
          EraseEdges_loop pos rest
            (fmupd cell_pos (cell\<lparr>referring_cells := removeAll pos (referring_cells cell)\<rparr>)
               sheet))"

text \<open>
  A member function runs on the Cell object that the sheet holds at \<open>pos\<close>; its fields
  are read from and written to the table, so that a cell that reaches itself through
  the sheet sees its own changes. Calling it where the sheet holds no cell is a call
  through a null pointer (\<open>None\<close>).
\<close>

definition EraseEdges :: "'p Sheet \<Rightarrow> 'p \<Rightarrow> 'p Sheet option" where
  "EraseEdges sheet pos =
     (case GetCell sheet pos of
        None \<Rightarrow> None
      | Some cell \<Rightarrow>
          (case ClearCaches (referring_cells cell) sheet of
             None \<Rightarrow> None
           | Some sheet1 \<Rightarrow>
               (let sheet2 = EraseEdges_loop pos (referenced_cells cell) sheet1
                in case GetCell sheet2 pos of
                     None \<Rightarrow> None
                   | Some cell2 \<Rightarrow> Some (fmupd pos (cell2\<lparr>referenced_cells := []\<rparr>) sheet2))))"

text \<open>
  Modelled from the spec: Sheet::SetCell is not among the sources. AddEdges calls it
  with the empty text at a position without a cell, where it creates an Empty cell:
  a Cell with Empty content and no edges.
\<close>

definition SetCell_empty :: "'p Sheet \<Rightarrow> 'p \<Rightarrow> 'p Sheet" where
  "SetCell_empty sheet pos =
     fmupd pos \<lparr>impl = Some EmptyImpl, referring_cells = [], referenced_cells = []\<rparr> sheet"

text \<open>
  AddEdges, for the cell at \<open>pos\<close>: each reference is created if absent, inserted into
  the cell's referenced set, and given \<open>pos\<close> in its referring set. The second GetCell
  is dereferenced unchecked.
\<close>

fun AddEdges :: "'p \<Rightarrow> 'p list \<Rightarrow> 'p Sheet \<Rightarrow> 'p Sheet option" where
  "AddEdges pos [] sheet = Some sheet"
| "AddEdges pos (ref_pos # rest) sheet =
     (let sheet1 = (if GetCell sheet ref_pos = None then SetCell_empty sheet ref_pos else sheet)
      in case GetCell sheet1 pos of
           None \<Rightarrow> None
         | Some cell \<Rightarrow>
             (let sheet2 = fmupd pos
                    (cell\<lparr>referenced_cells := List.insert ref_pos (referenced_cells cell)\<rparr>)
                    sheet1
              in case GetCell sheet2 ref_pos of
                   None \<Rightarrow> None
                 | Some ref_cell \<Rightarrow>
                     AddEdges pos rest
                       (fmupd ref_pos
                          (ref_cell\<lparr>referring_cells := List.insert pos (referring_cells ref_cell)\<rparr>)
                          sheet2)))"

section \<open>Cell::Set\<close>

text \<open>
  A call of Set returns with the sheet updated, or throws CircularDependencyException
  and leaves the sheet as the statements before the throw made it, or runs into
  undefined behaviour.
\<close>

datatype 'p outcome = Returns "'p Sheet" | Throws "'p Sheet" | Undefined

text \<open>The assignment to \<open>impl_\<close> of the cell at \<open>pos\<close>.\<close>

definition assign_impl :: "'p \<Rightarrow> 'p Impl \<Rightarrow> 'p Sheet \<Rightarrow> 'p Sheet" where
  "assign_impl pos content sheet =
     (case GetCell sheet pos of
        None \<Rightarrow> sheet
      | Some cell \<Rightarrow> fmupd pos (cell\<lparr>impl := Some content\<rparr>) sheet)"

text \<open>
  Set. ParseFormula (formula.h) builds the formula object from the text after the
  formula marker; it is a parameter, and so is FORMULA_SIGN. What the parser does with a
  text it rejects is not in cell.cpp and not in this model. EraseEdges is the first
  statement, before the text is classified.
\<close>

definition Set ::
  "char \<Rightarrow> (string \<Rightarrow> 'p Formula) \<Rightarrow> 'p Sheet \<Rightarrow> 'p \<Rightarrow> string \<Rightarrow> 'p outcome" where
  "Set FORMULA_SIGN ParseFormula sheet pos text =
     (case EraseEdges sheet pos of
        None \<Rightarrow> Undefined
      | Some sheet1 \<Rightarrow>
          if text = [] then Returns (assign_impl pos EmptyImpl sheet1)
          else if hd text = FORMULA_SIGN \<and> 1 < length text then
            (let formula_impl = ParseFormula (tl text)
             in case CheckCircularError sheet1 pos (references formula_impl) of
                  CircularDependencyException \<Rightarrow> Throws sheet1
                | NullDereference \<Rightarrow> Undefined
                | Passed visited \<Rightarrow>
                    (case AddEdges pos (references formula_impl) sheet1 of
                       None \<Rightarrow> Undefined
                     | Some sheet2 \<Rightarrow>
                         Returns (assign_impl pos (FormulaImpl formula_impl) sheet2)))
          else Returns (assign_impl pos (TextImpl text) sheet1))"

section \<open>Notions used in the properties\<close>

text \<open>
  The edges the cells record: \<open>(a, b)\<close> is a referenced edge when the cell at \<open>a\<close> has \<open>b\<close>
  in its referenced set, and \<open>(b, a)\<close> is a referring edge when the cell at \<open>b\<close> has \<open>a\<close>
  in its referring set.
\<close>

definition referenced_edges :: "'p Sheet \<Rightarrow> ('p \<times> 'p) set" where
  "referenced_edges sheet =
     {(a, b). \<exists>cell. GetCell sheet a = Some cell \<and> b \<in> set (referenced_cells cell)}"

definition referring_edges :: "'p Sheet \<Rightarrow> ('p \<times> 'p) set" where
  "referring_edges sheet =
     {(b, a). \<exists>cell. GetCell sheet b = Some cell \<and> a \<in> set (referring_cells cell)}"

text \<open>
  Graph symmetry: \<open>b\<close> is in the referenced set of the cell at \<open>a\<close> exactly when \<open>a\<close> is in
  the referring set of the cell at \<open>b\<close>; both cells exist.
\<close>

definition edges_symmetric :: "'p Sheet \<Rightarrow> bool" where
  "edges_symmetric sheet \<longleftrightarrow>
     (\<forall>a b. (\<exists>cell_a. GetCell sheet a = Some cell_a \<and> b \<in> set (referenced_cells cell_a))
        \<longleftrightarrow> (\<exists>cell_b. GetCell sheet b = Some cell_b \<and> a \<in> set (referring_cells cell_b)))"

text \<open>
  The edges cycle detection follows: from a position to the positions that the content
  committed there reports (GetReferencedCells). A position without a cell has none.
\<close>

definition content_edge :: "'p Sheet \<Rightarrow> ('p \<times> 'p) set" where
  "content_edge sheet =
     {(a, b). \<exists>cell refs. GetCell sheet a = Some cell \<and> GetReferencedCells cell = Some refs
                \<and> b \<in> set refs}"

text \<open>
  The edges cache invalidation follows: from a position to a cell of its referring set
  that holds a cache.
\<close>

definition cached_referrer :: "'p Sheet \<Rightarrow> ('p \<times> 'p) set" where
  "cached_referrer sheet =
     {(a, b). \<exists>cell. GetCell sheet a = Some cell \<and> b \<in> set (referring_cells cell)
                \<and> has_cache_at sheet b}"

text \<open>
  Two conditions on a sheet under which Set at \<open>pos\<close> dereferences no null pointer: every
  position in a referring set has a cell that holds a formula, and every cell other than
  the one being set has content.
\<close>

definition referrers_hold_formulas :: "'p Sheet \<Rightarrow> bool" where
  "referrers_hold_formulas sheet \<longleftrightarrow>
     (\<forall>p cell q. GetCell sheet p = Some cell \<and> q \<in> set (referring_cells cell)
        \<longrightarrow> (\<exists>cell_q f. GetCell sheet q = Some cell_q \<and> impl cell_q = Some (FormulaImpl f)))"

definition others_initialised :: "'p Sheet \<Rightarrow> 'p \<Rightarrow> bool" where
  "others_initialised sheet pos \<longleftrightarrow>
     (\<forall>q cell. q \<noteq> pos \<and> GetCell sheet q = Some cell \<longrightarrow> impl cell \<noteq> None)"

text \<open>
  The invariant of the edge sets that Set maintains: the edges are symmetric, and only a
  cell that holds a formula has a non-empty referenced set.
\<close>

definition references_come_from_formulas :: "'p Sheet \<Rightarrow> bool" where
  "references_come_from_formulas sheet \<longleftrightarrow>
     (\<forall>p cell. GetCell sheet p = Some cell \<and> referenced_cells cell \<noteq> []
        \<longrightarrow> (\<exists>f. impl cell = Some (FormulaImpl f)))"

definition well_formed :: "'p Sheet \<Rightarrow> bool" where
  "well_formed sheet \<longleftrightarrow> edges_symmetric sheet \<and> references_come_from_formulas sheet"

text \<open>
  Setting the cache flag of the formula at a position: what the evaluator does to the
  formula object when it memoises a result.
\<close>

definition with_cache :: "'p \<Rightarrow> 'p Sheet \<Rightarrow> 'p Sheet" where
  "with_cache pos sheet =
     (case GetCell sheet pos of
        None \<Rightarrow> sheet
      | Some cell \<Rightarrow>
          (case formula_of cell of
             None \<Rightarrow> sheet
           | Some f \<Rightarrow> fmupd pos (set_formula (f\<lparr>has_cache := True\<rparr>) cell) sheet))"

section \<open>Reading a formula cell\<close>

text \<open>
  Modelled from the spec: the formula evaluator (FormulaInterface::Evaluate, formula.cpp)
  is not among the sources. The spec says that the value of Formula content is evaluated
  lazily by the formula object, which returns a number or a formula error, resolves its
  references through the sheet, and may memoise its last result; HasCache tells whether
  a memoised result is present.

  FormulaImpl::GetValue turns the result of Evaluate into a Value.
\<close>

definition formula_value :: "'d + 'e \<Rightarrow> ('d, 'e) Value" where
  "formula_value result = (case result of Inl v \<Rightarrow> DoubleValue v | Inr e \<Rightarrow> FormulaErrorValue e)"

text \<open>Reading a list of cells in order, each read in the state the one before left.\<close>

fun read_all :: "('s \<Rightarrow> 'p \<Rightarrow> ('v \<times> 's) option) \<Rightarrow> 's \<Rightarrow> 'p list \<Rightarrow> ('v list \<times> 's) option" where
  "read_all read state [] = Some ([], state)"
| "read_all read state (pos # rest) =
     (case read state pos of
        None \<Rightarrow> None
      | Some (v, state1) \<Rightarrow>
          (case read_all read state1 rest of
             None \<Rightarrow> None
           | Some (vs, state2) \<Rightarrow> Some (v # vs, state2)))"

text \<open>
  Modelled from the spec: GetValue on the cell at a position, with the memoising
  evaluator. The state is the sheet together with the memoised results, kept by
  position; a result counts only while the formula's cache flag is set. Empty and Text
  content give the values of Impl::GetValue. A formula with a cache returns the memoised
  result. A formula without one reads the cells it references (an absent cell has no
  value), applies \<open>compute\<close>, the arithmetic of the expression, which is a parameter,
  and memoises the result. The fuel bounds the depth of nested reads: a read that runs
  out of it, or that dereferences a null content pointer, has no result.
\<close>

primrec GetValue_memo ::
  "nat \<Rightarrow> char \<Rightarrow> (string \<Rightarrow> ('d, 'e) Value option list \<Rightarrow> 'd + 'e)
     \<Rightarrow> 'p Sheet \<times> ('p, 'd + 'e) fmap \<Rightarrow> 'p
     \<Rightarrow> (('d, 'e) Value option \<times> 'p Sheet \<times> ('p, 'd + 'e) fmap) option" where
  "GetValue_memo 0 ESCAPE_SIGN compute state pos = None"
| "GetValue_memo (Suc fuel) ESCAPE_SIGN compute state pos =
     (case GetCell (fst state) pos of
        None \<Rightarrow> Some (None, state)
      | Some cell \<Rightarrow>
          (case impl cell of
             None \<Rightarrow> None
           | Some EmptyImpl \<Rightarrow> Some (Some (StringValue []), state)
           | Some (TextImpl text) \<Rightarrow>
               Some (Some (if text \<noteq> [] \<and> hd text = ESCAPE_SIGN then StringValue (tl text)
                           else StringValue text), state)
           | Some (FormulaImpl f) \<Rightarrow>
               if has_cache f
               then (case fmlookup (snd state) pos of
                       None \<Rightarrow> None
                     | Some result \<Rightarrow> Some (Some (formula_value result), state))
               else (case read_all (GetValue_memo fuel ESCAPE_SIGN compute) state (references f) of
                       None \<Rightarrow> None
                     | Some (values, state1) \<Rightarrow>
                         Some (Some (formula_value (compute (expression f) values)),
                               (with_cache pos (fst state1),
                                fmupd pos (compute (expression f) values) (snd state1))))))"

section \<open>Auxiliary notions of the proofs\<close>

text \<open>
  A cell with its cache cleared, and the relation between two sheets that differ only in
  caches that were cleared.
\<close>

definition clear_cell :: "'p Cell \<Rightarrow> 'p Cell" where
  "clear_cell cell =
     (case formula_of cell of None \<Rightarrow> cell | Some f \<Rightarrow> set_formula (ClearCache f) cell)"

definition cache_step :: "'p Sheet \<Rightarrow> 'p Sheet \<Rightarrow> bool" where
  "cache_step s t \<longleftrightarrow>
     (\<forall>p. GetCell t p = GetCell s p
          \<or> (has_cache_at s p \<and> GetCell t p = map_option clear_cell (GetCell s p)))"

definition holds_formula :: "'p Sheet \<Rightarrow> 'p \<Rightarrow> bool" where
  "holds_formula s q \<longleftrightarrow> (\<exists>c f. GetCell s q = Some c \<and> formula_of c = Some f)"

text \<open>What EraseEdges does to one cell, and one pass through the loop of AddEdges.\<close>

definition erase_referring :: "'p \<Rightarrow> 'p Cell \<Rightarrow> 'p Cell" where
  "erase_referring pos cell = cell\<lparr>referring_cells := removeAll pos (referring_cells cell)\<rparr>"

definition trim :: "'p \<Rightarrow> 'p set \<Rightarrow> 'p \<Rightarrow> 'p Cell \<Rightarrow> 'p Cell" where
  "trim pos R q cell =
     cell\<lparr>referring_cells :=
            (if q \<in> R then removeAll pos (referring_cells cell) else referring_cells cell),
          referenced_cells := (if q = pos then [] else referenced_cells cell)\<rparr>"

definition AddEdges_body :: "'p \<Rightarrow> 'p \<Rightarrow> 'p Sheet \<Rightarrow> 'p Sheet option" where
  "AddEdges_body pos ref_pos sheet =
     (let sheet1 = (if GetCell sheet ref_pos = None then SetCell_empty sheet ref_pos else sheet)
      in case GetCell sheet1 pos of
           None \<Rightarrow> None
         | Some cell \<Rightarrow>
             (let sheet2 = fmupd pos
                    (cell\<lparr>referenced_cells := List.insert ref_pos (referenced_cells cell)\<rparr>)
                    sheet1
              in case GetCell sheet2 ref_pos of
                   None \<Rightarrow> None
                 | Some ref_cell \<Rightarrow>
                     Some (fmupd ref_pos
                          (ref_cell\<lparr>referring_cells := List.insert pos (referring_cells ref_cell)\<rparr>)
                          sheet2)))"

section \<open>Example sheets\<close>

text \<open>
  Positions are cell names. The example parser reads the formula text as the name of the
  one cell that the formula references.
\<close>

definition single_reference :: "string \<Rightarrow> string Formula" where
  "single_reference text = \<lparr>expression = text, references = [text], has_cache = False\<rparr>"

text \<open>
  A1 holds a formula over B1, B1 holds a formula over C1, C1 is Empty; the two parameters
  say whether A1 and B1 hold a cache. It is the sheet that setting A1 to \<open>=B1\<close> and then
  B1 to \<open>=C1\<close> builds, before or after A1 has been evaluated.
\<close>

definition chain_sheet :: "bool \<Rightarrow> bool \<Rightarrow> string Sheet" where
  "chain_sheet cached_A1 cached_B1 =
     fmupd ''A1''
       \<lparr>impl = Some (FormulaImpl \<lparr>expression = ''B1'', references = [''B1''],
                                  has_cache = cached_A1\<rparr>),
        referring_cells = [], referenced_cells = [''B1'']\<rparr>
    (fmupd ''B1''
       \<lparr>impl = Some (FormulaImpl \<lparr>expression = ''C1'', references = [''C1''],
                                  has_cache = cached_B1\<rparr>),
        referring_cells = [''A1''], referenced_cells = [''C1'']\<rparr>
    (fmupd ''C1''
       \<lparr>impl = Some EmptyImpl, referring_cells = [''B1''], referenced_cells = []\<rparr>
     fmempty))"

text \<open>The chain after C1 has been set to \<open>=D1\<close>.\<close>

definition chain_sheet_D1 :: "string Sheet" where
  "chain_sheet_D1 =
     fmupd ''D1''
       \<lparr>impl = Some EmptyImpl, referring_cells = [''C1''], referenced_cells = []\<rparr>
    (fmupd ''C1''
       \<lparr>impl = Some (FormulaImpl (single_reference ''D1'')), referring_cells = [''B1''],
        referenced_cells = [''D1'']\<rparr>
    (chain_sheet False False))"

text \<open>A sheet whose only cell lists a referrer that the sheet no longer holds.\<close>

definition stale_sheet :: "string Sheet" where
  "stale_sheet =
     fmupd ''C1'' \<lparr>impl = Some EmptyImpl, referring_cells = [''B1''], referenced_cells = []\<rparr>
       fmempty"

text \<open>
  A second example parser: the formula text is a list of two-character cell names, each
  separated from the next by one character, as in \<open>A1+B1\<close>.
\<close>

fun names_of :: "string \<Rightarrow> string list" where
  "names_of (a # b # c # rest) = [a, b] # names_of rest"
| "names_of [a, b] = [[a, b]]"
| "names_of text = []"

definition sum_references :: "string \<Rightarrow> string Formula" where
  "sum_references text = \<lparr>expression = text, references = names_of text, has_cache = False\<rparr>"

text \<open>
  An example of the arithmetic: a formula over one cell has that cell's number; an empty
  string counts as 0 and the text \<open>5\<close> as 5; anything else is an error.
\<close>

definition example_compute :: "string \<Rightarrow> (nat, unit) Value option list \<Rightarrow> nat + unit" where
  "example_compute expr values =
     (case values of
        [Some (DoubleValue d)] \<Rightarrow> Inl d
      | [Some (StringValue s)] \<Rightarrow> (if s = [] then Inl 0 else if s = ''5'' then Inl 5 else Inr ())
      | _ \<Rightarrow> Inr ())"

section \<open>Lemmas\<close>

lemma GetCell_fmupd [simp]:
  "GetCell (fmupd p c sheet) q = (if p = q then Some c else GetCell sheet q)"
  by (simp add: GetCell_def)

lemma GetCell_fmempty [simp]: "GetCell fmempty q = None"
  by (simp add: GetCell_def)

lemma sheet_eqI: "(\<And>p. GetCell s p = GetCell t p) \<Longrightarrow> s = t"
  by (rule fmap_ext) (simp add: GetCell_def)

lemma clear_cell_fields [simp]:
  "referring_cells (clear_cell c) = referring_cells c"
  "referenced_cells (clear_cell c) = referenced_cells c"
  "GetReferencedCells (clear_cell c) = GetReferencedCells c"
  "formula_of (clear_cell c) = map_option ClearCache (formula_of c)"
  "(impl (clear_cell c) = None) = (impl c = None)"
  by (auto simp: clear_cell_def formula_of_def set_formula_def GetReferencedCells_def ClearCache_def
           split: option.splits Impl.splits)

lemma has_cache_ClearCache [simp]: "\<not> has_cache (ClearCache f)"
  by (simp add: ClearCache_def)

lemma clear_cell_idem [simp]: "clear_cell (clear_cell c) = clear_cell c"
  by (auto simp: clear_cell_def formula_of_def set_formula_def ClearCache_def
           split: option.splits Impl.splits)

lemma has_cache_at_clear_cell:
  "GetCell t p = map_option clear_cell (GetCell s p) \<Longrightarrow> \<not> has_cache_at t p"
  by (auto simp: has_cache_at_iff)

lemma has_cache_at_cong: "GetCell t p = GetCell s p \<Longrightarrow> has_cache_at t p = has_cache_at s p"
  by (simp add: has_cache_at_def)

lemma cache_step_refl [simp]: "cache_step s s"
  by (simp add: cache_step_def)

lemma cache_step_at:
  "cache_step s t \<Longrightarrow>
     GetCell t p = GetCell s p
       \<or> (has_cache_at s p \<and> GetCell t p = map_option clear_cell (GetCell s p))"
  by (simp add: cache_step_def)

lemma cache_step_mono: "cache_step s t \<Longrightarrow> has_cache_at t p \<Longrightarrow> has_cache_at s p"
  using cache_step_at[of s t p] has_cache_at_clear_cell[of t p s] has_cache_at_cong[of t p s]
  by blast

lemma cache_step_trans:
  assumes "cache_step s t" "cache_step t u"
  shows "cache_step s u"
  unfolding cache_step_def
proof
  fix p
  note a = cache_step_at[OF assms(1), of p] and b = cache_step_at[OF assms(2), of p]
  show "GetCell u p = GetCell s p
          \<or> (has_cache_at s p \<and> GetCell u p = map_option clear_cell (GetCell s p))"
  proof (cases "GetCell t p = GetCell s p")
    case True
    with b show ?thesis by (simp add: has_cache_at_cong[OF True])
  next
    case False
    with a have h: "has_cache_at s p" and e: "GetCell t p = map_option clear_cell (GetCell s p)"
      by auto
    from e have "\<not> has_cache_at t p" by (rule has_cache_at_clear_cell)
    with b have "GetCell u p = GetCell t p" by blast
    with h e show ?thesis by simp
  qed
qed

lemma cache_step_clear:
  assumes "GetCell s p = Some c" "formula_of c = Some f" "has_cache f"
  shows "cache_step s (fmupd p (set_formula (ClearCache f) c) s)"
  using assms by (auto simp: cache_step_def has_cache_at_iff clear_cell_def)

lemma ClearCaches_cache_step:
  "ClearCaches refs s = Some t \<Longrightarrow> cache_step s t"
proof (induction refs s arbitrary: t rule: ClearCaches.induct)
  case (1 sheet)
  then show ?case by simp
next
  case (2 p rest s)
  from "2.prems" obtain c f where
    c: "GetCell s p = Some c" and i: "formula_of c = Some f"
    by (auto split: option.splits)
  show ?case
  proof (cases "has_cache f")
    case False
    with "2.prems" c i "2.IH"(1)[OF c i] show ?thesis by simp
  next
    case True
    let ?s1 = "fmupd p (set_formula (ClearCache f) c) s"
    from "2.prems" c i True obtain s2 where
      r1: "ClearCaches (referring_cells c) ?s1 = Some s2" and
      r2: "ClearCaches rest s2 = Some t"
      by (auto split: option.splits)
    have "cache_step ?s1 s2" using "2.IH"(2)[OF c i _ r1] True by simp
    moreover have "cache_step s2 t" using "2.IH"(3)[OF c i _ r1 r2] True by simp
    ultimately show ?thesis
      using cache_step_clear[OF c i True] by (blast intro: cache_step_trans)
  qed
qed

lemma cache_step_fields:
  assumes "cache_step s t"
  shows "map_option referring_cells (GetCell t p) = map_option referring_cells (GetCell s p)"
    and "map_option referenced_cells (GetCell t p) = map_option referenced_cells (GetCell s p)"
    and "map_option GetReferencedCells (GetCell t p) = map_option GetReferencedCells (GetCell s p)"
    and "(GetCell t p = None) = (GetCell s p = None)"
  using cache_step_at[OF assms, of p]
  by (cases "GetCell s p"; auto)+

lemma cache_step_cell:
  assumes "cache_step s t" "GetCell s p = Some c"
  obtains c' where "GetCell t p = Some c'" "referring_cells c' = referring_cells c"
    "referenced_cells c' = referenced_cells c" "GetReferencedCells c' = GetReferencedCells c"
    "c' = c \<or> (has_cache_at s p \<and> c' = clear_cell c)"
  using cache_step_at[OF assms(1), of p] assms(2)
  by auto

lemma ClearCaches_cases:
  assumes "ClearCaches (p # rest) s = Some t"
  obtains (skip) c f where "GetCell s p = Some c" "formula_of c = Some f" "\<not> has_cache f"
      "ClearCaches rest s = Some t"
  | (clear) c f s2 where "GetCell s p = Some c" "formula_of c = Some f" "has_cache f"
      "ClearCaches (referring_cells c) (fmupd p (set_formula (ClearCache f) c) s) = Some s2"
      "ClearCaches rest s2 = Some t"
  using assms by (auto split: option.splits if_splits)

lemma ClearCaches_clears_given:
  "ClearCaches refs s = Some t \<Longrightarrow> l \<in> set refs \<Longrightarrow> \<not> has_cache_at t l"
proof (induction refs s arbitrary: t rule: ClearCaches.induct)
  case (1 sheet)
  then show ?case by simp
next
  case (2 p rest s)
  from "2.prems"(1) show ?case
  proof (cases rule: ClearCaches_cases)
    case (skip c f)
    have "\<not> has_cache_at s p" using skip by (simp add: has_cache_at_iff)
    then have "\<not> has_cache_at t p"
      using cache_step_mono[OF ClearCaches_cache_step[OF skip(4)]] by blast
    moreover have "l \<in> set rest \<Longrightarrow> \<not> has_cache_at t l"
      using "2.IH"(1)[OF skip(1,2) _ skip(4)] skip(3) by simp
    ultimately show ?thesis using "2.prems"(2) by auto
  next
    case (clear c f s2)
    let ?s1 = "fmupd p (set_formula (ClearCache f) c) s"
    have "\<not> has_cache_at ?s1 p" by (simp add: has_cache_at_clear)
    then have "\<not> has_cache_at s2 p"
      using cache_step_mono[OF ClearCaches_cache_step[OF clear(4)]] by blast
    then have "\<not> has_cache_at t p"
      using cache_step_mono[OF ClearCaches_cache_step[OF clear(5)]] by blast
    moreover have "l \<in> set rest \<Longrightarrow> \<not> has_cache_at t l"
      using "2.IH"(3)[OF clear(1,2) _ clear(4,5)] clear(3) by simp
    ultimately show ?thesis using "2.prems"(2) by auto
  qed
qed

lemma ClearCaches_closed:
  "ClearCaches refs s = Some t \<Longrightarrow> has_cache_at s x \<Longrightarrow> \<not> has_cache_at t x
     \<Longrightarrow> GetCell s x = Some cx \<Longrightarrow> y \<in> set (referring_cells cx) \<Longrightarrow> \<not> has_cache_at t y"
proof (induction refs s arbitrary: t cx rule: ClearCaches.induct)
  case (1 sheet)
  then show ?case by simp
next
  case (2 p rest s)
  from "2.prems"(1) show ?case
  proof (cases rule: ClearCaches_cases)
    case (skip c f)
    show ?thesis
      using "2.IH"(1)[OF skip(1,2) _ skip(4) "2.prems"(2,3,4,5)] skip(3) by simp
  next
    case (clear c f s2)
    let ?s1 = "fmupd p (set_formula (ClearCache f) c) s"
    note st2 = ClearCaches_cache_step[OF clear(5)]
    show ?thesis
    proof (cases "x = p")
      case True
      with "2.prems"(4) clear(1) have "cx = c" by simp
      with "2.prems"(5) have "\<not> has_cache_at s2 y"
        using ClearCaches_clears_given[OF clear(4)] by simp
      then show ?thesis using cache_step_mono[OF st2] by blast
    next
      case False
      then have h1: "has_cache_at ?s1 x" and g1: "GetCell ?s1 x = Some cx"
        using "2.prems"(2,4) by (simp_all add: has_cache_at_clear)
      show ?thesis
      proof (cases "has_cache_at s2 x")
        case False
        have "\<not> has_cache_at s2 y"
          using "2.IH"(2)[OF clear(1,2) _ clear(4) h1 False g1 "2.prems"(5)] clear(3) by simp
        then show ?thesis using cache_step_mono[OF st2] by blast
      next
        case True
        obtain c2 where g2: "GetCell s2 x = Some c2" and r2: "referring_cells c2 = referring_cells cx"
          using cache_step_cell[OF ClearCaches_cache_step[OF clear(4)] g1] by metis
        show ?thesis
          using "2.IH"(3)[OF clear(1,2) _ clear(4,5) True "2.prems"(3) g2] r2 "2.prems"(5) clear(3)
          by simp
      qed
    qed
  qed
qed

lemma cached_referrer_mono:
  assumes "cache_step s t"
  shows "cached_referrer t \<subseteq> cached_referrer s"
proof
  fix e assume "e \<in> cached_referrer t"
  then obtain a b ct where e: "e = (a, b)" and g: "GetCell t a = Some ct"
    and m: "b \<in> set (referring_cells ct)" and h: "has_cache_at t b"
    by (auto simp: cached_referrer_def)
  from cache_step_fields(1)[OF assms, of a] g obtain cs where
    "GetCell s a = Some cs" "referring_cells cs = referring_cells ct"
    by (cases "GetCell s a") auto
  with m cache_step_mono[OF assms h] show "e \<in> cached_referrer s"
    by (auto simp: cached_referrer_def e)
qed

lemma ClearCaches_only_reachable:
  "ClearCaches refs s = Some t \<Longrightarrow> has_cache_at s x \<Longrightarrow> \<not> has_cache_at t x
     \<Longrightarrow> \<exists>l \<in> set refs. has_cache_at s l \<and> (l, x) \<in> (cached_referrer s)\<^sup>*"
proof (induction refs s arbitrary: t rule: ClearCaches.induct)
  case (1 sheet)
  then show ?case by simp
next
  case (2 p rest s)
  from "2.prems"(1) show ?case
  proof (cases rule: ClearCaches_cases)
    case (skip c f)
    show ?thesis
      using "2.IH"(1)[OF skip(1,2) _ skip(4) "2.prems"(2,3)] skip(3) by auto
  next
    case (clear c f s2)
    let ?s1 = "fmupd p (set_formula (ClearCache f) c) s"
    have st1: "cache_step s ?s1" by (rule cache_step_clear[OF clear(1,2,3)])
    note st12 = ClearCaches_cache_step[OF clear(4)]
    have hp: "has_cache_at s p" using clear by (auto simp: has_cache_at_iff)
    show ?thesis
    proof (cases "x = p")
      case True
      with hp show ?thesis by auto
    next
      case False
      then have h1: "has_cache_at ?s1 x" using "2.prems"(2) by (simp add: has_cache_at_clear)
      show ?thesis
      proof (cases "has_cache_at s2 x")
        case False
        from "2.IH"(2)[OF clear(1,2) _ clear(4) h1 False] clear(3)
        obtain l where l: "l \<in> set (referring_cells c)" "has_cache_at ?s1 l"
          "(l, x) \<in> (cached_referrer ?s1)\<^sup>*" by auto
        have "has_cache_at s l" using cache_step_mono[OF st1 l(2)] .
        with l(1) clear(1) have "(p, l) \<in> cached_referrer s"
          by (auto simp: cached_referrer_def)
        moreover have "(l, x) \<in> (cached_referrer s)\<^sup>*"
          using rtrancl_mono[OF cached_referrer_mono[OF st1]] l(3) by blast
        ultimately have "(p, x) \<in> (cached_referrer s)\<^sup>*" by auto
        with hp show ?thesis by auto
      next
        case True
        from "2.IH"(3)[OF clear(1,2) _ clear(4,5) True "2.prems"(3)] clear(3)
        obtain l where l: "l \<in> set rest" "has_cache_at s2 l"
          "(l, x) \<in> (cached_referrer s2)\<^sup>*" by auto
        have st: "cache_step s s2" by (rule cache_step_trans[OF st1 st12])
        have "has_cache_at s l" using cache_step_mono[OF st l(2)] .
        moreover have "(l, x) \<in> (cached_referrer s)\<^sup>*"
          using rtrancl_mono[OF cached_referrer_mono[OF st]] l(3) by blast
        ultimately show ?thesis using l(1) by auto
      qed
    qed
  qed
qed

lemma cached_path_cleared:
  assumes cc: "ClearCaches refs s = Some t"
    and "(l, x) \<in> (cached_referrer s)\<^sup>*" "has_cache_at s l" "\<not> has_cache_at t l"
  shows "\<not> has_cache_at t x"
  using assms(2,3,4)
proof (induction rule: rtrancl_induct)
  case base
  then show ?case by simp
next
  case (step y z)
  then have ny: "\<not> has_cache_at t y" by simp
  have hy: "has_cache_at s y"
    using step.hyps(1) step.prems(1)
    by (cases rule: rtranclE) (auto simp: cached_referrer_def)
  from step.hyps(2) obtain cy where "GetCell s y = Some cy" "z \<in> set (referring_cells cy)"
    by (auto simp: cached_referrer_def)
  then show ?case using ClearCaches_closed[OF cc hy ny] by blast
qed

lemma ClearCaches_has_cache_at:
  assumes "ClearCaches refs s = Some t"
  shows "has_cache_at t x \<longleftrightarrow>
           has_cache_at s x
           \<and> \<not> (\<exists>l \<in> set refs. has_cache_at s l \<and> (l, x) \<in> (cached_referrer s)\<^sup>*)"
proof
  assume h: "has_cache_at t x"
  have "has_cache_at s x" using cache_step_mono[OF ClearCaches_cache_step[OF assms] h] .
  moreover have "\<not> (\<exists>l \<in> set refs. has_cache_at s l \<and> (l, x) \<in> (cached_referrer s)\<^sup>*)"
  proof
    assume "\<exists>l \<in> set refs. has_cache_at s l \<and> (l, x) \<in> (cached_referrer s)\<^sup>*"
    then obtain l where l: "l \<in> set refs" "has_cache_at s l" "(l, x) \<in> (cached_referrer s)\<^sup>*"
      by blast
    have "\<not> has_cache_at t l" using ClearCaches_clears_given[OF assms l(1)] .
    from cached_path_cleared[OF assms l(3,2) this] h show False by simp
  qed
  ultimately show "has_cache_at s x
           \<and> \<not> (\<exists>l \<in> set refs. has_cache_at s l \<and> (l, x) \<in> (cached_referrer s)\<^sup>*)" by simp
next
  assume "has_cache_at s x
           \<and> \<not> (\<exists>l \<in> set refs. has_cache_at s l \<and> (l, x) \<in> (cached_referrer s)\<^sup>*)"
  then show "has_cache_at t x"
    using ClearCaches_only_reachable[OF assms, of x] by blast
qed

lemma cached_referrer_trancl_iff:
  assumes "GetCell s p = Some c"
  shows "(p, x) \<in> (cached_referrer s)\<^sup>+ \<longleftrightarrow>
           (\<exists>l \<in> set (referring_cells c). has_cache_at s l \<and> (l, x) \<in> (cached_referrer s)\<^sup>*)"
proof
  assume "(p, x) \<in> (cached_referrer s)\<^sup>+"
  then obtain l where "(p, l) \<in> cached_referrer s" "(l, x) \<in> (cached_referrer s)\<^sup>*"
    by (auto dest: tranclD)
  with assms show "\<exists>l \<in> set (referring_cells c). has_cache_at s l \<and> (l, x) \<in> (cached_referrer s)\<^sup>*"
    by (auto simp: cached_referrer_def)
next
  assume "\<exists>l \<in> set (referring_cells c). has_cache_at s l \<and> (l, x) \<in> (cached_referrer s)\<^sup>*"
  then obtain l where "l \<in> set (referring_cells c)" "has_cache_at s l"
    "(l, x) \<in> (cached_referrer s)\<^sup>*" by blast
  with assms have "(p, l) \<in> cached_referrer s" by (auto simp: cached_referrer_def)
  with \<open>(l, x) \<in> (cached_referrer s)\<^sup>*\<close> show "(p, x) \<in> (cached_referrer s)\<^sup>+" by auto
qed

lemma erase_referring_idem [simp]:
  "erase_referring pos (erase_referring pos c) = erase_referring pos c"
  by (simp add: erase_referring_def)

lemma EraseEdges_loop_GetCell:
  "GetCell (EraseEdges_loop pos refs s) q =
     (if q \<in> set refs then map_option (erase_referring pos) (GetCell s q) else GetCell s q)"
proof (induction refs arbitrary: s)
  case Nil
  then show ?case by simp
next
  case (Cons r rest)
  show ?case
  proof (cases "GetCell s r")
    case None
    then show ?thesis using Cons.IH[of s] by auto
  next
    case (Some c)
    then show ?thesis
      using Cons.IH[of "fmupd r (c\<lparr>referring_cells := removeAll pos (referring_cells c)\<rparr>) s"]
      by (auto simp: erase_referring_def[abs_def])
  qed
qed

lemma EraseEdges_effect:
  assumes "EraseEdges s pos = Some s1"
  shows "\<exists>c t. GetCell s pos = Some c \<and> ClearCaches (referring_cells c) s = Some t
           \<and> (\<forall>q. GetCell s1 q
                      = map_option (trim pos (set (referenced_cells c)) q) (GetCell t q))"
proof -
  from assms obtain c t c2 where c: "GetCell s pos = Some c"
    and t: "ClearCaches (referring_cells c) s = Some t"
    and c2: "GetCell (EraseEdges_loop pos (referenced_cells c) t) pos = Some c2"
    and s1: "s1 = fmupd pos (c2\<lparr>referenced_cells := []\<rparr>)
                    (EraseEdges_loop pos (referenced_cells c) t)"
    by (auto simp: EraseEdges_def Let_def split: option.splits)
  have "GetCell s1 q = map_option (trim pos (set (referenced_cells c)) q) (GetCell t q)" for q
    using c2 unfolding s1
    by (cases "GetCell t q")
       (auto simp: EraseEdges_loop_GetCell trim_def erase_referring_def split: if_splits)
  with c t show ?thesis by blast
qed

lemma EraseEdges_defined:
  assumes "GetCell s pos = Some c" "ClearCaches (referring_cells c) s = Some t"
  shows "EraseEdges s pos \<noteq> None"
proof -
  from cache_step_fields(4)[OF ClearCaches_cache_step[OF assms(2)], of pos] assms(1)
  obtain ct where "GetCell t pos = Some ct" by auto
  then show ?thesis
    using assms by (auto simp: EraseEdges_def Let_def EraseEdges_loop_GetCell split: option.splits)
qed

lemma trim_fields [simp]:
  "impl (trim pos R q c) = impl c"
  "formula_of (trim pos R q c) = formula_of c"
  "GetReferencedCells (trim pos R q c) = GetReferencedCells c"
  "set (referring_cells (trim pos R q c)) = set (referring_cells c) - (if q \<in> R then {pos} else {})"
  "set (referenced_cells (trim pos R q c)) = (if q = pos then {} else set (referenced_cells c))"
  by (auto simp: trim_def formula_of_def GetReferencedCells_def)

lemma cache_step_referenced_edges: "cache_step s t \<Longrightarrow> referenced_edges t = referenced_edges s"
  unfolding referenced_edges_def
  apply (intro Collect_cong)
  subgoal for e
    using cache_step_fields(2)[of s t "fst e"]
    by (cases e; cases "GetCell s (fst e)"; cases "GetCell t (fst e)"; auto)
  done

lemma cache_step_referring_edges: "cache_step s t \<Longrightarrow> referring_edges t = referring_edges s"
  unfolding referring_edges_def
  apply (intro Collect_cong)
  subgoal for e
    using cache_step_fields(1)[of s t "fst e"]
    by (cases e; cases "GetCell s (fst e)"; cases "GetCell t (fst e)"; auto)
  done

lemma EraseEdges_referenced_edges:
  assumes "EraseEdges s pos = Some s1"
  shows "referenced_edges s1 = referenced_edges s - {pos} \<times> UNIV"
proof -
  from EraseEdges_effect[OF assms(1)] obtain c t where c: "GetCell s pos = Some c"
    and t: "ClearCaches (referring_cells c) s = Some t"
    and g': "\<forall>q. GetCell s1 q = map_option (trim pos (set (referenced_cells c)) q) (GetCell t q)"
    by blast
  note g = g'[rule_format]
  have "referenced_edges s1 = referenced_edges t - {pos} \<times> UNIV"
    by (auto simp: referenced_edges_def g split: if_splits)
  then show ?thesis
    by (simp add: cache_step_referenced_edges[OF ClearCaches_cache_step[OF t]])
qed

lemma EraseEdges_referring_edges:
  assumes "EraseEdges s pos = Some s1"
  shows "referring_edges s1 = referring_edges s - {(b, a). a = pos \<and> (pos, b) \<in> referenced_edges s}"
proof -
  from EraseEdges_effect[OF assms(1)] obtain c t where c: "GetCell s pos = Some c"
    and t: "ClearCaches (referring_cells c) s = Some t"
    and g': "\<forall>q. GetCell s1 q = map_option (trim pos (set (referenced_cells c)) q) (GetCell t q)"
    by blast
  note g = g'[rule_format]
  have "referring_edges s1 = referring_edges t - {(b, a). a = pos \<and> b \<in> set (referenced_cells c)}"
    by (auto simp: referring_edges_def g split: if_splits)
  moreover have "{(b, a). a = pos \<and> b \<in> set (referenced_cells c)}
                   = {(b, a). a = pos \<and> (pos, b) \<in> referenced_edges s}"
    using c by (auto simp: referenced_edges_def)
  ultimately show ?thesis
    by (simp add: cache_step_referring_edges[OF ClearCaches_cache_step[OF t]])
qed

lemma EraseEdges_dom:
  assumes "EraseEdges s pos = Some s1"
  shows "(GetCell s1 q = None) = (GetCell s q = None)"
proof -
  from EraseEdges_effect[OF assms(1)] obtain c t where c: "GetCell s pos = Some c"
    and t: "ClearCaches (referring_cells c) s = Some t"
    and g': "\<forall>q. GetCell s1 q = map_option (trim pos (set (referenced_cells c)) q) (GetCell t q)"
    by blast
  note g = g'[rule_format]
  show ?thesis
    using cache_step_fields(4)[OF ClearCaches_cache_step[OF t], of q] by (simp add: g)
qed

lemma EraseEdges_GetReferencedCells:
  assumes "EraseEdges s pos = Some s1"
  shows "map_option GetReferencedCells (GetCell s1 q) = map_option GetReferencedCells (GetCell s q)"
proof -
  from EraseEdges_effect[OF assms(1)] obtain c t where c: "GetCell s pos = Some c"
    and t: "ClearCaches (referring_cells c) s = Some t"
    and g': "\<forall>q. GetCell s1 q = map_option (trim pos (set (referenced_cells c)) q) (GetCell t q)"
    by blast
  note g = g'[rule_format]
  show ?thesis
    using cache_step_fields(3)[OF ClearCaches_cache_step[OF t], of q]
    by (cases "GetCell t q"; cases "GetCell s q") (auto simp: g)
qed

lemma EraseEdges_has_cache_at:
  assumes "EraseEdges s pos = Some s1" "GetCell s pos = Some c"
  shows "has_cache_at s1 x \<longleftrightarrow> has_cache_at s x \<and> (pos, x) \<notin> (cached_referrer s)\<^sup>+"
proof -
  from EraseEdges_effect[OF assms(1)] assms(2) obtain t where
    t: "ClearCaches (referring_cells c) s = Some t"
    and g': "\<forall>q. GetCell s1 q = map_option (trim pos (set (referenced_cells c)) q) (GetCell t q)"
    by auto
  note g = g'[rule_format]
  have "has_cache_at s1 x = has_cache_at t x"
    by (cases "GetCell t x") (auto simp: has_cache_at_iff g)
  then show ?thesis
    by (simp add: ClearCaches_has_cache_at[OF t] cached_referrer_trancl_iff[OF assms(2)])
qed

lemma AddEdges_Cons:
  "AddEdges pos (r # rest) s =
     (case AddEdges_body pos r s of None \<Rightarrow> None | Some s3 \<Rightarrow> AddEdges pos rest s3)"
  by (simp add: AddEdges_body_def Let_def split: option.splits del: GetCell_fmupd)

lemma AddEdges_body_absent:
  assumes "GetCell s pos = Some c0" "GetCell s r = None"
  shows "AddEdges_body pos r s =
           Some (fmupd r \<lparr>impl = Some EmptyImpl, referring_cells = [pos], referenced_cells = []\<rparr>
                  (fmupd pos (c0\<lparr>referenced_cells := List.insert r (referenced_cells c0)\<rparr>) 
                     (SetCell_empty s r)))"
proof -
  from assms have "r \<noteq> pos" by auto
  then show ?thesis
    using assms by (simp add: AddEdges_body_def SetCell_empty_def)
qed

lemma AddEdges_body_self:
  assumes "GetCell s pos = Some c0"
  shows "AddEdges_body pos pos s =
           Some (fmupd pos (c0\<lparr>referenced_cells := List.insert pos (referenced_cells c0),
                               referring_cells := List.insert pos (referring_cells c0)\<rparr>) s)"
  using assms by (simp add: AddEdges_body_def)

lemma AddEdges_body_present:
  assumes "GetCell s pos = Some c0" "GetCell s r = Some rc" "r \<noteq> pos"
  shows "AddEdges_body pos r s =
           Some (fmupd r (rc\<lparr>referring_cells := List.insert pos (referring_cells rc)\<rparr>)
                  (fmupd pos (c0\<lparr>referenced_cells := List.insert r (referenced_cells c0)\<rparr>) s))"
  using assms by (simp add: AddEdges_body_def)

lemma AddEdges_body_facts:
  assumes "GetCell s pos = Some c0"
  shows "\<exists>s3. AddEdges_body pos r s = Some s3
          \<and> (\<exists>c3. GetCell s3 pos = Some c3)
          \<and> referenced_edges s3 = referenced_edges s \<union> {(pos, r)}
          \<and> referring_edges s3 = referring_edges s \<union> {(r, pos)}
          \<and> (\<forall>q. map_option impl (GetCell s3 q) =
                    (if GetCell s q = None \<and> q = r then Some (Some EmptyImpl)
                     else map_option impl (GetCell s q)))"
proof (cases "GetCell s r")
  case None
  then have ne: "r \<noteq> pos" using assms by auto
  show ?thesis
    unfolding AddEdges_body_absent[OF assms None]
    using assms None ne
    by (auto simp: referenced_edges_def referring_edges_def SetCell_empty_def split: if_splits)
next
  case (Some rc)
  show ?thesis
  proof (cases "r = pos")
    case True
    show ?thesis
      unfolding True AddEdges_body_self[OF assms]
      using assms
      by (auto simp: referenced_edges_def referring_edges_def split: if_splits)
  next
    case False
    show ?thesis
      unfolding AddEdges_body_present[OF assms Some False]
      using assms Some False
      by (auto simp: referenced_edges_def referring_edges_def split: if_splits)
  qed
qed

lemma AddEdges_effect:
  "GetCell s pos = Some c0 \<Longrightarrow>
     \<exists>s'. AddEdges pos refs s = Some s'
        \<and> (\<exists>c'. GetCell s' pos = Some c')
        \<and> referenced_edges s' = referenced_edges s \<union> {pos} \<times> set refs
        \<and> referring_edges s' = referring_edges s \<union> set refs \<times> {pos}
        \<and> (\<forall>q. map_option impl (GetCell s' q) =
                  (if GetCell s q = None \<and> q \<in> set refs then Some (Some EmptyImpl)
                   else map_option impl (GetCell s q)))"
proof (induction refs arbitrary: s c0)
  case Nil
  then show ?case by simp
next
  case (Cons r rest)
  from AddEdges_body_facts[OF Cons.prems, of r] obtain s3 c3 where
    b: "AddEdges_body pos r s = Some s3" and c3: "GetCell s3 pos = Some c3"
    and e1: "referenced_edges s3 = referenced_edges s \<union> {(pos, r)}"
    and e2: "referring_edges s3 = referring_edges s \<union> {(r, pos)}"
    and i: "\<forall>q. map_option impl (GetCell s3 q) =
                    (if GetCell s q = None \<and> q = r then Some (Some EmptyImpl)
                     else map_option impl (GetCell s q))"
    by blast
  from Cons.IH[OF c3] obtain s' c' where
    a: "AddEdges pos rest s3 = Some s'" and c': "GetCell s' pos = Some c'"
    and f1: "referenced_edges s' = referenced_edges s3 \<union> {pos} \<times> set rest"
    and f2: "referring_edges s' = referring_edges s3 \<union> set rest \<times> {pos}"
    and j: "\<forall>q. map_option impl (GetCell s' q) =
                  (if GetCell s3 q = None \<and> q \<in> set rest then Some (Some EmptyImpl)
                   else map_option impl (GetCell s3 q))"
    by blast
  have 1: "AddEdges pos (r # rest) s = Some s'"
    using a b by (simp only: AddEdges_Cons option.case)
  have 2: "referenced_edges s' = referenced_edges s \<union> {pos} \<times> set (r # rest)"
    unfolding f1 e1 by auto
  have 3: "referring_edges s' = referring_edges s \<union> set (r # rest) \<times> {pos}"
    unfolding f2 e2 by auto
  have 4: "map_option impl (GetCell s' q) =
                  (if GetCell s q = None \<and> q \<in> set (r # rest) then Some (Some EmptyImpl)
                   else map_option impl (GetCell s q))" for q
  proof -
    note iq = i[rule_format, of q] and jq = j[rule_format, of q]
    show ?thesis
    proof (cases "GetCell s3 q")
      case None
      with iq have "GetCell s q = None" "q \<noteq> r" by (auto split: if_splits)
      with None show ?thesis unfolding jq by simp
    next
      case (Some d)
      then have e: "map_option impl (GetCell s' q) = map_option impl (GetCell s3 q)"
        unfolding jq by simp
      have n: "\<not> (GetCell s q = None \<and> q \<noteq> r)"
      proof
        assume "GetCell s q = None \<and> q \<noteq> r"
        then have "map_option impl (GetCell s3 q) = None" unfolding iq by simp
        with Some show False by simp
      qed
      have "(if GetCell s q = None \<and> q \<in> set (r # rest) then Some (Some EmptyImpl)
                   else map_option impl (GetCell s q))
            = (if GetCell s q = None \<and> q = r then Some (Some EmptyImpl)
                     else map_option impl (GetCell s q))"
        using n by auto
      then show ?thesis unfolding e iq by simp
    qed
  qed
  from 1 c' 2 3 4 show ?case by blast
qed

lemma AddEdges_referenced_edges:
  assumes "GetCell s pos = Some c0" "AddEdges pos refs s = Some s'"
  shows "referenced_edges s' = referenced_edges s \<union> {pos} \<times> set refs"
  using AddEdges_effect[OF assms(1), of refs] assms(2) by auto

lemma AddEdges_referring_edges:
  assumes "GetCell s pos = Some c0" "AddEdges pos refs s = Some s'"
  shows "referring_edges s' = referring_edges s \<union> set refs \<times> {pos}"
  using AddEdges_effect[OF assms(1), of refs] assms(2) by auto

lemma AddEdges_impl:
  assumes "GetCell s pos = Some c0" "AddEdges pos refs s = Some s'"
  shows "map_option impl (GetCell s' q) =
                  (if GetCell s q = None \<and> q \<in> set refs then Some (Some EmptyImpl)
                   else map_option impl (GetCell s q))"
  using AddEdges_effect[OF assms(1), of refs] assms(2) by auto

lemma AddEdges_defined:
  assumes "GetCell s pos = Some c0"
  shows "AddEdges pos refs s \<noteq> None"
  using AddEdges_effect[OF assms(1), of refs] by auto

lemma GetCell_assign_impl:
  "GetCell (assign_impl pos i s) q =
     (if q = pos then map_option (\<lambda>c. c\<lparr>impl := Some i\<rparr>) (GetCell s pos) else GetCell s q)"
  by (auto simp: assign_impl_def split: option.splits)

lemma assign_impl_referenced_edges [simp]:
  "referenced_edges (assign_impl pos i s) = referenced_edges s"
  by (auto simp: referenced_edges_def GetCell_assign_impl split: if_splits)

lemma assign_impl_referring_edges [simp]:
  "referring_edges (assign_impl pos i s) = referring_edges s"
  by (auto simp: referring_edges_def GetCell_assign_impl split: if_splits)

lemma Set_Returns_cases:
  assumes "Set FS PF s pos text = Returns s'"
  obtains (Empty) s1 where "EraseEdges s pos = Some s1" "text = []"
      "s' = assign_impl pos EmptyImpl s1"
  | (Formula) s1 visited s2 where "EraseEdges s pos = Some s1" "text \<noteq> []"
      "hd text = FS" "1 < length text"
      "CheckCircularError s1 pos (references (PF (tl text))) = Passed visited"
      "AddEdges pos (references (PF (tl text))) s1 = Some s2"
      "s' = assign_impl pos (FormulaImpl (PF (tl text))) s2"
  | (Text) s1 where "EraseEdges s pos = Some s1" "text \<noteq> []"
      "\<not> (hd text = FS \<and> 1 < length text)"
      "s' = assign_impl pos (TextImpl text) s1"
  using assms
  by (auto simp: Set_def Let_def split: option.splits if_splits check.splits)

lemma Set_Throws_cases:
  assumes "Set FS PF s pos text = Throws s'"
  shows "EraseEdges s pos = Some s' \<and> text \<noteq> [] \<and> hd text = FS \<and> 1 < length text
           \<and> CheckCircularError s' pos (references (PF (tl text))) = CircularDependencyException"
  using assms
  by (auto simp: Set_def Let_def split: option.splits if_splits check.splits)

lemma EraseEdges_GetCell_pos:
  assumes "EraseEdges s pos = Some s1"
  shows "\<exists>c1. GetCell s1 pos = Some c1"
  using EraseEdges_effect[OF assms] EraseEdges_dom[OF assms, of pos] by auto

lemma edges_symmetric_iff:
  "edges_symmetric s \<longleftrightarrow> referring_edges s = (referenced_edges s)\<inverse>"
  unfolding edges_symmetric_def referring_edges_def referenced_edges_def
  by (auto simp: set_eq_iff)

lemma EraseEdges_symmetric:
  assumes "edges_symmetric s" "EraseEdges s pos = Some s1"
  shows "edges_symmetric s1"
    and "referenced_edges s1 = referenced_edges s - {pos} \<times> UNIV"
    and "referring_edges s1 = referring_edges s - UNIV \<times> {pos}"
proof -
  have r: "referring_edges s = (referenced_edges s)\<inverse>"
    using assms(1) by (simp add: edges_symmetric_iff)
  show 2: "referenced_edges s1 = referenced_edges s - {pos} \<times> UNIV"
    by (rule EraseEdges_referenced_edges[OF assms(2)])
  show 3: "referring_edges s1 = referring_edges s - UNIV \<times> {pos}"
    unfolding EraseEdges_referring_edges[OF assms(2)] r by auto
  show "edges_symmetric s1"
    unfolding edges_symmetric_iff 2 3 r by auto
qed

lemma Set_Returns_symmetric:
  assumes "edges_symmetric s" "Set FS PF s pos text = Returns s'"
  shows "edges_symmetric s'"
  using assms(2)
proof (cases rule: Set_Returns_cases)
  case (Empty s1)
  then show ?thesis
    using EraseEdges_symmetric(1)[OF assms(1) Empty(1)] by (simp add: edges_symmetric_iff)
next
  case (Formula s1 visited s2)
  from EraseEdges_GetCell_pos[OF Formula(1)] obtain c1 where c1: "GetCell s1 pos = Some c1" by blast
  have "referring_edges s1 = (referenced_edges s1)\<inverse>"
    using EraseEdges_symmetric(1)[OF assms(1) Formula(1)] by (simp add: edges_symmetric_iff)
  then show ?thesis
    unfolding Formula(7) edges_symmetric_iff
    by (auto simp: AddEdges_referenced_edges[OF c1 Formula(6)]
                   AddEdges_referring_edges[OF c1 Formula(6)])
next
  case (Text s1)
  then show ?thesis
    using EraseEdges_symmetric(1)[OF assms(1) Text(1)] by (simp add: edges_symmetric_iff)
qed

lemma formula_of_Some_iff: "formula_of c = Some f \<longleftrightarrow> impl c = Some (FormulaImpl f)"
  by (auto simp: formula_of_def split: option.splits Impl.splits)

lemma GetReferencedCells_None_iff: "GetReferencedCells c = None \<longleftrightarrow> impl c = None"
  by (simp add: GetReferencedCells_def)

lemma visit_Cons_Circular:
  assumes "CheckCircularError_visit s this (r # rest) V = CircularDependencyException"
  obtains (skip) "r \<in> V" "CheckCircularError_visit s this rest V = CircularDependencyException"
  | (found) "r \<notin> V" "this = r"
  | (absent) "r \<notin> V" "this \<noteq> r" "GetCell s r = None"
      "CheckCircularError_visit s this rest (insert r V) = CircularDependencyException"
  | (inner) c refs where "r \<notin> V" "this \<noteq> r" "GetCell s r = Some c"
      "GetReferencedCells c = Some refs"
      "CheckCircularError_visit s this refs (insert r V) = CircularDependencyException"
  | (later) c refs V1 where "r \<notin> V" "this \<noteq> r" "GetCell s r = Some c"
      "GetReferencedCells c = Some refs"
      "CheckCircularError_visit s this refs (insert r V) = Passed V1"
      "CheckCircularError_visit s this rest V1 = CircularDependencyException"
  using assms by (auto split: if_splits option.splits check.splits)

lemma visit_Cons_Passed:
  assumes "CheckCircularError_visit s this (r # rest) V = Passed V'"
  obtains (skip) "r \<in> V" "CheckCircularError_visit s this rest V = Passed V'"
  | (absent) "r \<notin> V" "this \<noteq> r" "GetCell s r = None"
      "CheckCircularError_visit s this rest (insert r V) = Passed V'"
  | (later) c refs V1 where "r \<notin> V" "this \<noteq> r" "GetCell s r = Some c"
      "GetReferencedCells c = Some refs"
      "CheckCircularError_visit s this refs (insert r V) = Passed V1"
      "CheckCircularError_visit s this rest V1 = Passed V'"
  using assms by (auto split: if_splits option.splits check.splits)

lemma visit_sound:
  "CheckCircularError_visit s this refs V = CircularDependencyException
     \<Longrightarrow> \<exists>r \<in> set refs. (r, this) \<in> (content_edge s)\<^sup>*"
proof (induction s this refs V rule: CheckCircularError_visit.induct)
  case (1 s this V)
  then show ?case by simp
next
  case (2 s this r rest V)
  from "2.prems" show ?case
  proof (cases rule: visit_Cons_Circular)
    case skip
    with "2.IH"(1) show ?thesis by auto
  next
    case found
    then show ?thesis by auto
  next
    case absent
    with "2.IH"(2) show ?thesis by auto
  next
    case (inner c refs)
    from "2.IH"(3)[OF inner] obtain r' where "r' \<in> set refs" "(r', this) \<in> (content_edge s)\<^sup>*"
      by blast
    moreover from this(1) inner(3,4) have "(r, r') \<in> content_edge s"
      by (auto simp: content_edge_def)
    ultimately have "(r, this) \<in> (content_edge s)\<^sup>*" by auto
    then show ?thesis by auto
  next
    case (later c refs V1)
    from "2.IH"(4)[OF later] show ?thesis by auto
  qed
qed

lemma visit_complete:
  "CheckCircularError_visit s this refs V = Passed V'
     \<Longrightarrow> V \<subseteq> V' \<and> set refs \<subseteq> V' \<and> (this \<notin> V \<longrightarrow> this \<notin> V')
         \<and> (\<forall>x y. x \<in> V' \<and> x \<notin> V \<and> (x, y) \<in> content_edge s \<longrightarrow> y \<in> V')"
proof (induction s this refs V arbitrary: V' rule: CheckCircularError_visit.induct)
  case (1 s this V)
  then show ?case by auto
next
  case (2 s this r rest V)
  from "2.prems" show ?case
  proof (cases rule: visit_Cons_Passed)
    case skip
    from "2.IH"(1)[OF skip] skip(1) show ?thesis by auto
  next
    case absent
    from "2.IH"(2)[OF absent] have
      i1: "insert r V \<subseteq> V'" and i2: "set rest \<subseteq> V'"
      and i3: "this \<notin> insert r V \<longrightarrow> this \<notin> V'"
      and i4: "\<And>x y. x \<in> V' \<Longrightarrow> x \<notin> insert r V \<Longrightarrow> (x, y) \<in> content_edge s \<Longrightarrow> y \<in> V'"
      by blast+
    have nr: "\<And>y. (r, y) \<notin> content_edge s" using absent(3) by (auto simp: content_edge_def)
    have a: "V \<subseteq> V'" using i1 by simp
    have b: "set (r # rest) \<subseteq> V'" using i1 i2 by simp
    have c: "this \<notin> V \<longrightarrow> this \<notin> V'" using i3 absent(2) by simp
    have d: "y \<in> V'" if "x \<in> V'" "x \<notin> V" "(x, y) \<in> content_edge s" for x y
    proof (cases "x = r")
      case True
      with that nr show ?thesis by simp
    next
      case False
      with that i4[of x y] show ?thesis by simp
    qed
    from a b c d show ?thesis by blast
  next
    case (later c refs V1)
    from "2.IH"(3)[OF later(1-5)] have
      i1: "insert r V \<subseteq> V1" and i2: "set refs \<subseteq> V1"
      and i3: "this \<notin> insert r V \<longrightarrow> this \<notin> V1"
      and i4: "\<And>x y. x \<in> V1 \<Longrightarrow> x \<notin> insert r V \<Longrightarrow> (x, y) \<in> content_edge s \<Longrightarrow> y \<in> V1"
      by blast+
    from "2.IH"(4)[OF later] have
      j1: "V1 \<subseteq> V'" and j2: "set rest \<subseteq> V'"
      and j3: "this \<notin> V1 \<longrightarrow> this \<notin> V'"
      and j4: "\<And>x y. x \<in> V' \<Longrightarrow> x \<notin> V1 \<Longrightarrow> (x, y) \<in> content_edge s \<Longrightarrow> y \<in> V'"
      by blast+
    have r: "\<And>y. (r, y) \<in> content_edge s \<Longrightarrow> y \<in> set refs"
      using later(3,4) by (auto simp: content_edge_def)
    have a: "V \<subseteq> V'" using i1 j1 by auto
    have b: "set (r # rest) \<subseteq> V'" using i1 j1 j2 by auto
    have c: "this \<notin> V \<longrightarrow> this \<notin> V'" using i3 j3 later(2) by auto
    have d: "y \<in> V'" if "x \<in> V'" "x \<notin> V" "(x, y) \<in> content_edge s" for x y
    proof (cases "x \<in> V1")
      case False
      with that j4[of x y] show ?thesis by simp
    next
      case True
      show ?thesis
      proof (cases "x = r")
        case True
        with r[of y] that(3) i2 j1 show ?thesis by auto
      next
        case False
        with True that i4[of x y] have "y \<in> V1" by simp
        with j1 show ?thesis by auto
      qed
    qed
    from a b c d show ?thesis by blast
  qed
qed

lemma visit_defined:
  "others_initialised s this \<Longrightarrow> CheckCircularError_visit s this refs V \<noteq> NullDereference"
proof (induction s this refs V rule: CheckCircularError_visit.induct)
  case (1 s this V)
  then show ?case by simp
next
  case (2 s this r rest V)
  show ?case
  proof (cases "r \<in> V")
    case True
    with "2.IH"(1) "2.prems" show ?thesis by simp
  next
    case nv: False
    show ?thesis
    proof (cases "this = r")
      case True
      with nv show ?thesis by simp
    next
      case ne: False
      show ?thesis
      proof (cases "GetCell s r")
        case None
        with "2.IH"(2)[OF nv ne None "2.prems"] nv ne show ?thesis by simp
      next
        case (Some c)
        have "impl c \<noteq> None"
          using "2.prems"[unfolded others_initialised_def, rule_format, of r c] ne Some by auto
        then obtain refs where g: "GetReferencedCells c = Some refs"
          by (auto simp: GetReferencedCells_def)
        note ih3 = "2.IH"(3)[OF nv ne Some g "2.prems"]
        show ?thesis
        proof (cases "CheckCircularError_visit s this refs (insert r V)")
          case (Passed V1)
          with "2.IH"(4)[OF nv ne Some g Passed "2.prems"] nv ne Some g show ?thesis by simp
        next
          case CircularDependencyException
          with nv ne Some g show ?thesis by simp
        next
          case NullDereference
          with ih3 show ?thesis by simp
        qed
      qed
    qed
  qed
qed

lemma CheckCircularError_iff:
  assumes "others_initialised s pos"
  shows "CheckCircularError s pos refs = CircularDependencyException
           \<longleftrightarrow> (\<exists>r \<in> set refs. (r, pos) \<in> (content_edge s)\<^sup>*)"
proof
  assume "CheckCircularError s pos refs = CircularDependencyException"
  then show "\<exists>r \<in> set refs. (r, pos) \<in> (content_edge s)\<^sup>*"
    unfolding CheckCircularError_def by (rule visit_sound)
next
  assume reach: "\<exists>r \<in> set refs. (r, pos) \<in> (content_edge s)\<^sup>*"
  show "CheckCircularError s pos refs = CircularDependencyException"
  proof (cases "CheckCircularError s pos refs")
    case (Passed V')
    from visit_complete[OF Passed[unfolded CheckCircularError_def]]
    have refs: "set refs \<subseteq> V'" and np: "pos \<notin> V'"
      and closed: "\<And>x y. x \<in> V' \<Longrightarrow> (x, y) \<in> content_edge s \<Longrightarrow> y \<in> V'"
      by simp_all
    from reach obtain r where r: "r \<in> set refs" "(r, pos) \<in> (content_edge s)\<^sup>*" by blast
    from r(2) have "r \<in> V' \<Longrightarrow> pos \<in> V'"
      by (induction rule: rtrancl_induct) (auto intro: closed)
    with r(1) refs np show ?thesis by auto
  next
    case CircularDependencyException
    then show ?thesis .
  next
    case NullDereference
    with visit_defined[OF assms, of refs "{}"] show ?thesis
      by (simp add: CheckCircularError_def)
  qed
qed

lemma cache_step_holds_formula:
  assumes "cache_step s t"
  shows "holds_formula t q = holds_formula s q"
  using cache_step_at[OF assms, of q]
  by (cases "GetCell s q") (auto simp: holds_formula_def)

lemma referrers_hold_formulas_alt:
  "referrers_hold_formulas s \<longleftrightarrow>
     (\<forall>p c q. GetCell s p = Some c \<and> q \<in> set (referring_cells c) \<longrightarrow> holds_formula s q)"
  by (simp add: referrers_hold_formulas_def holds_formula_def formula_of_Some_iff)

lemma cache_step_referrers_hold_formulas:
  assumes "cache_step s t" "referrers_hold_formulas s"
  shows "referrers_hold_formulas t"
  unfolding referrers_hold_formulas_alt
proof (intro allI impI)
  fix p c q assume a: "GetCell t p = Some c \<and> q \<in> set (referring_cells c)"
  with cache_step_fields(1)[OF assms(1), of p] obtain c0 where
    "GetCell s p = Some c0" "referring_cells c0 = referring_cells c"
    by (cases "GetCell s p") auto
  with a assms(2)[unfolded referrers_hold_formulas_alt, rule_format, of p c0 q]
  have "holds_formula s q" by simp
  then show "holds_formula t q" by (simp add: cache_step_holds_formula[OF assms(1)])
qed

lemma ClearCaches_defined:
  "referrers_hold_formulas s \<Longrightarrow> (\<forall>l \<in> set refs. holds_formula s l)
     \<Longrightarrow> ClearCaches refs s \<noteq> None"
proof (induction refs s rule: ClearCaches.induct)
  case (1 sheet)
  then show ?case by simp
next
  case (2 p rest s)
  from "2.prems"(2) obtain c f where c: "GetCell s p = Some c" and f: "formula_of c = Some f"
    by (auto simp: holds_formula_def)
  show ?case
  proof (cases "has_cache f")
    case False
    with "2.IH"(1)[OF c f _ "2.prems"(1)] "2.prems"(2) c f show ?thesis by simp
  next
    case True
    let ?s1 = "fmupd p (set_formula (ClearCache f) c) s"
    have st1: "cache_step s ?s1" by (rule cache_step_clear[OF c f True])
    have w1: "referrers_hold_formulas ?s1"
      by (rule cache_step_referrers_hold_formulas[OF st1 "2.prems"(1)])
    have "\<forall>l \<in> set (referring_cells c). holds_formula s l"
      using "2.prems"(1)[unfolded referrers_hold_formulas_alt, rule_format, of p c] c by simp
    then have l1: "\<forall>l \<in> set (referring_cells c). holds_formula ?s1 l"
      by (simp add: cache_step_holds_formula[OF st1])
    from "2.IH"(2)[OF c f _ w1 l1] True obtain s2 where
      r1: "ClearCaches (referring_cells c) ?s1 = Some s2" by auto
    have st2: "cache_step s s2"
      by (rule cache_step_trans[OF st1 ClearCaches_cache_step[OF r1]])
    have w2: "referrers_hold_formulas s2"
      by (rule cache_step_referrers_hold_formulas[OF st2 "2.prems"(1)])
    have l2: "\<forall>l \<in> set rest. holds_formula s2 l"
      using "2.prems"(2) by (simp add: cache_step_holds_formula[OF st2])
    from "2.IH"(3)[OF c f _ r1 w2 l2] True c f r1 show ?thesis by simp
  qed
qed

lemma EraseEdges_defined_wf:
  assumes "referrers_hold_formulas s" "GetCell s pos = Some c"
  shows "EraseEdges s pos \<noteq> None"
proof -
  have "\<forall>l \<in> set (referring_cells c). holds_formula s l"
    using assms(1)[unfolded referrers_hold_formulas_alt, rule_format, of pos c] assms(2) by simp
  from ClearCaches_defined[OF assms(1) this] obtain t where
    "ClearCaches (referring_cells c) s = Some t" by auto
  from EraseEdges_defined[OF assms(2) this] show ?thesis .
qed

lemma EraseEdges_content_edge:
  assumes "EraseEdges s pos = Some s1"
  shows "content_edge s1 = content_edge s"
proof -
  have "(a, b) \<in> content_edge s1 \<longleftrightarrow> (a, b) \<in> content_edge s" for a b
    using EraseEdges_GetReferencedCells[OF assms, of a]
    by (cases "GetCell s1 a"; cases "GetCell s a") (auto simp: content_edge_def)
  then show ?thesis by (intro set_eqI) (simp only: split_paired_all)
qed

lemma EraseEdges_others_initialised:
  assumes "EraseEdges s pos = Some s1" "others_initialised s p"
  shows "others_initialised s1 p"
  unfolding others_initialised_def
proof (intro allI impI)
  fix q c1 assume a: "q \<noteq> p \<and> GetCell s1 q = Some c1"
  with EraseEdges_GetReferencedCells[OF assms(1), of q] obtain c where
    "GetCell s q = Some c" "GetReferencedCells c = GetReferencedCells c1"
    by (cases "GetCell s q") auto
  moreover from this a assms(2)[unfolded others_initialised_def, rule_format, of q c]
  have "impl c \<noteq> None" by simp
  ultimately show "impl c1 \<noteq> None"
    by (simp add: GetReferencedCells_None_iff[symmetric])
qed

lemma Set_formula_outcome:
  assumes "referrers_hold_formulas s" "others_initialised s pos" "GetCell s pos = Some c"
    and "text \<noteq> []" "hd text = FS" "1 < length text"
  shows "if (\<exists>r \<in> set (references (PF (tl text))). (r, pos) \<in> (content_edge s)\<^sup>*)
         then (\<exists>s'. Set FS PF s pos text = Throws s')
         else (\<exists>s'. Set FS PF s pos text = Returns s')"
proof -
  from EraseEdges_defined_wf[OF assms(1,3)] obtain s1 where e: "EraseEdges s pos = Some s1"
    by auto
  note oi = EraseEdges_others_initialised[OF e assms(2)]
  note iff = CheckCircularError_iff[OF oi, of "references (PF (tl text))",
                unfolded EraseEdges_content_edge[OF e]]
  from EraseEdges_GetCell_pos[OF e] obtain c1 where c1: "GetCell s1 pos = Some c1" by blast
  show ?thesis
  proof (cases "\<exists>r \<in> set (references (PF (tl text))). (r, pos) \<in> (content_edge s)\<^sup>*")
    case True
    with iff have "CheckCircularError s1 pos (references (PF (tl text))) = CircularDependencyException"
      by simp
    with e assms(4,5,6) True show ?thesis by (simp add: Set_def Let_def)
  next
    case False
    with iff have n: "CheckCircularError s1 pos (references (PF (tl text))) \<noteq> CircularDependencyException"
      by simp
    have "CheckCircularError s1 pos (references (PF (tl text))) \<noteq> NullDereference"
      unfolding CheckCircularError_def by (rule visit_defined[OF oi])
    with n obtain V where "CheckCircularError s1 pos (references (PF (tl text))) = Passed V"
      by (cases "CheckCircularError s1 pos (references (PF (tl text)))") auto
    moreover from AddEdges_defined[OF c1] obtain s2 where
      "AddEdges pos (references (PF (tl text))) s1 = Some s2" by auto
    ultimately show ?thesis
      using e assms(4,5,6) False by (simp add: Set_def Let_def)
  qed
qed

lemma has_cache_at_impl_cong:
  "map_option impl (GetCell t x) = map_option impl (GetCell s x)
     \<Longrightarrow> has_cache_at t x = has_cache_at s x"
  by (cases "GetCell t x"; cases "GetCell s x") (auto simp: has_cache_at_def)

lemma AddEdges_has_cache_at:
  assumes "GetCell s pos = Some c0" "AddEdges pos refs s = Some s'"
  shows "has_cache_at s' x = has_cache_at s x"
proof (cases "GetCell s x = None \<and> x \<in> set refs")
  case True
  with AddEdges_impl[OF assms, of x] have "map_option impl (GetCell s' x) = Some (Some EmptyImpl)"
    by simp
  then have "\<not> has_cache_at s' x"
    by (cases "GetCell s' x") (auto simp: has_cache_at_def)
  moreover have "\<not> has_cache_at s x" using True by (simp add: has_cache_at_def)
  ultimately show ?thesis by simp
next
  case False
  with AddEdges_impl[OF assms, of x]
  have "map_option impl (GetCell s' x) = map_option impl (GetCell s x)" by auto
  then show ?thesis by (rule has_cache_at_impl_cong)
qed

lemma assign_impl_has_cache_at:
  "x \<noteq> pos \<Longrightarrow> has_cache_at (assign_impl pos i s) x = has_cache_at s x"
  by (simp add: has_cache_at_def GetCell_assign_impl)

lemma Set_Returns_cell:
  assumes "Set FS PF s pos text = Returns s'"
  shows "\<exists>c. GetCell s pos = Some c"
  using assms by (auto simp: Set_def EraseEdges_def split: option.splits)

lemma Set_Returns_has_cache_at:
  assumes "Set FS PF s pos text = Returns s'" "x \<noteq> pos"
  shows "has_cache_at s' x \<longleftrightarrow> has_cache_at s x \<and> (pos, x) \<notin> (cached_referrer s)\<^sup>+"
proof -
  from Set_Returns_cell[OF assms(1)] obtain c where c: "GetCell s pos = Some c" by blast
  from assms(1) show ?thesis
  proof (cases rule: Set_Returns_cases)
    case (Empty s1)
    then show ?thesis
      using EraseEdges_has_cache_at[OF Empty(1) c, of x] assms(2)
      by (simp add: assign_impl_has_cache_at)
  next
    case (Formula s1 visited s2)
    from EraseEdges_GetCell_pos[OF Formula(1)] obtain c1 where c1: "GetCell s1 pos = Some c1"
      by blast
    show ?thesis
      using EraseEdges_has_cache_at[OF Formula(1) c, of x] assms(2)
        AddEdges_has_cache_at[OF c1 Formula(6), of x]
      by (simp add: Formula(7) assign_impl_has_cache_at)
  next
    case (Text s1)
    then show ?thesis
      using EraseEdges_has_cache_at[OF Text(1) c, of x] assms(2)
      by (simp add: assign_impl_has_cache_at)
  qed
qed

lemma Set_Returns_impl:
  assumes "Set FS PF s pos text = Returns s'"
  shows "\<exists>cell. GetCell s' pos = Some cell
           \<and> impl cell = Some (if text = [] then EmptyImpl
                                else if hd text = FS \<and> 1 < length text
                                     then FormulaImpl (PF (tl text))
                                else TextImpl text)"
  using assms
proof (cases rule: Set_Returns_cases)
  case (Empty s1)
  with EraseEdges_GetCell_pos[OF Empty(1)] show ?thesis
    by (auto simp: GetCell_assign_impl)
next
  case (Formula s1 visited s2)
  from EraseEdges_GetCell_pos[OF Formula(1)] obtain c1 where c1: "GetCell s1 pos = Some c1"
    by blast
  from AddEdges_effect[OF c1, of "references (PF (tl text))"] Formula(6)
  obtain c2 where "GetCell s2 pos = Some c2" by auto
  with Formula show ?thesis by (auto simp: GetCell_assign_impl)
next
  case (Text s1)
  with EraseEdges_GetCell_pos[OF Text(1)] show ?thesis
    by (auto simp: GetCell_assign_impl)
qed

lemma Set_Returns_new_cells:
  assumes "Set FS PF s pos text = Returns s'" "GetCell s p = None"
  shows "if text \<noteq> [] \<and> hd text = FS \<and> 1 < length text
            \<and> p \<in> set (references (PF (tl text)))
         then \<exists>cell. GetCell s' p = Some cell \<and> impl cell = Some EmptyImpl
         else GetCell s' p = None"
proof -
  from Set_Returns_cell[OF assms(1)] assms(2) have ne: "p \<noteq> pos" by auto
  from assms(1) show ?thesis
  proof (cases rule: Set_Returns_cases)
    case (Empty s1)
    with EraseEdges_dom[OF Empty(1), of p] assms(2) ne show ?thesis
      by (simp add: GetCell_assign_impl)
  next
    case (Formula s1 visited s2)
    from EraseEdges_GetCell_pos[OF Formula(1)] obtain c1 where c1: "GetCell s1 pos = Some c1"
      by blast
    have n1: "GetCell s1 p = None" using EraseEdges_dom[OF Formula(1), of p] assms(2) by simp
    have i: "map_option impl (GetCell s2 p) =
               (if p \<in> set (references (PF (tl text))) then Some (Some EmptyImpl) else None)"
      using AddEdges_impl[OF c1 Formula(6), of p] n1 by simp
    show ?thesis
    proof (cases "p \<in> set (references (PF (tl text)))")
      case True
      with i obtain c2 where "GetCell s2 p = Some c2" "impl c2 = Some EmptyImpl" by auto
      with True Formula ne show ?thesis by (simp add: GetCell_assign_impl)
    next
      case False
      with i have "GetCell s2 p = None" by simp
      with False Formula ne show ?thesis by (simp add: GetCell_assign_impl)
    qed
  next
    case (Text s1)
    with EraseEdges_dom[OF Text(1), of p] assms(2) ne show ?thesis
      by (auto simp: GetCell_assign_impl)
  qed
qed

lemma Set_Returns_formula_edges:
  assumes "Set FS PF s pos text = Returns s'" "text \<noteq> []" "hd text = FS" "1 < length text"
  shows "{pos} \<times> set (references (PF (tl text))) \<subseteq> referenced_edges s'"
    and "set (references (PF (tl text))) \<times> {pos} \<subseteq> referring_edges s'"
proof -
  from assms obtain s1 s2 where e: "EraseEdges s pos = Some s1"
    and a: "AddEdges pos (references (PF (tl text))) s1 = Some s2"
    and s': "s' = assign_impl pos (FormulaImpl (PF (tl text))) s2"
    by (cases rule: Set_Returns_cases) auto
  from EraseEdges_GetCell_pos[OF e] obtain c1 where c1: "GetCell s1 pos = Some c1" by blast
  show "{pos} \<times> set (references (PF (tl text))) \<subseteq> referenced_edges s'"
    unfolding s' by (simp add: AddEdges_referenced_edges[OF c1 a])
  show "set (references (PF (tl text))) \<times> {pos} \<subseteq> referring_edges s'"
    unfolding s' by (simp add: AddEdges_referring_edges[OF c1 a])
qed

lemma Set_Throws_dom:
  assumes "Set FS PF s pos text = Throws s'"
  shows "(GetCell s' q = None) = (GetCell s q = None)"
  using Set_Throws_cases[OF assms] EraseEdges_dom[of s pos s' q] by simp

lemmas example_simps = Set_def EraseEdges_def CheckCircularError_def assign_impl_def
  SetCell_empty_def new_Cell_def formula_of_def set_formula_def ClearCache_def
  single_reference_def Let_def GetReferencedCells_def chain_sheet_def stale_sheet_def

lemma chain_sheet_well_formed:
  "referrers_hold_formulas (chain_sheet a b)" "others_initialised (chain_sheet a b) p"
  "edges_symmetric (chain_sheet a b)"
  by (auto simp: referrers_hold_formulas_def others_initialised_def edges_symmetric_def
        chain_sheet_def split: if_splits)

lemma chain_sheet_content_path:
  "(''A1'', ''C1'') \<in> (content_edge (chain_sheet a b))\<^sup>*"
proof -
  have "(''A1'', ''B1'') \<in> content_edge (chain_sheet a b)"
    by (simp add: content_edge_def chain_sheet_def GetReferencedCells_def)
  moreover have "(''B1'', ''C1'') \<in> content_edge (chain_sheet a b)"
    by (simp add: content_edge_def chain_sheet_def GetReferencedCells_def)
  ultimately show ?thesis by (meson rtrancl.simps)
qed

lemma Set_chain_sheet_D1:
  "Set (CHR ''='') single_reference (chain_sheet False False) ''C1'' ''=D1''
     = Returns chain_sheet_D1"
  by (simp add: example_simps chain_sheet_D1_def; rule fmap_ext; auto)

lemma Set_chain_sheet_marker:
  "Set (CHR ''='') single_reference (chain_sheet False False) ''C1'' ''=''
     = Returns (fmupd ''C1''
                  \<lparr>impl = Some (TextImpl ''=''), referring_cells = [''B1''],
                     referenced_cells = []\<rparr>
                  (chain_sheet False False))"
  by (simp add: example_simps; rule fmap_ext; auto)

lemma Set_chain_sheet_empty:
  "Set (CHR ''='') single_reference (chain_sheet False False) ''A1'' []
     = Returns (fmupd ''B1''
                  \<lparr>impl = Some (FormulaImpl (single_reference ''C1'')), referring_cells = [],
                     referenced_cells = [''C1'']\<rparr>
               (fmupd ''A1''
                  \<lparr>impl = Some EmptyImpl, referring_cells = [], referenced_cells = []\<rparr>
                  (chain_sheet False False)))"
  by (simp add: example_simps; rule fmap_ext; auto)

lemma references_come_from_formulas_alt:
  "references_come_from_formulas s \<longleftrightarrow> (\<forall>p b. (p, b) \<in> referenced_edges s \<longrightarrow> holds_formula s p)"
proof
  assume a: "references_come_from_formulas s"
  show "\<forall>p b. (p, b) \<in> referenced_edges s \<longrightarrow> holds_formula s p"
  proof (intro allI impI)
    fix p b assume "(p, b) \<in> referenced_edges s"
    then obtain c where c: "GetCell s p = Some c" "b \<in> set (referenced_cells c)"
      by (auto simp: referenced_edges_def)
    then have "referenced_cells c \<noteq> []" by auto
    with a[unfolded references_come_from_formulas_def, rule_format, of p c] c(1)
    show "holds_formula s p" by (auto simp: holds_formula_def formula_of_Some_iff)
  qed
next
  assume a: "\<forall>p b. (p, b) \<in> referenced_edges s \<longrightarrow> holds_formula s p"
  show "references_come_from_formulas s"
    unfolding references_come_from_formulas_def
  proof (intro allI impI)
    fix p c assume c: "GetCell s p = Some c \<and> referenced_cells c \<noteq> []"
    then obtain b where "b \<in> set (referenced_cells c)" by (cases "referenced_cells c") auto
    with c have "(p, b) \<in> referenced_edges s" by (auto simp: referenced_edges_def)
    with a have "holds_formula s p" by blast
    with c show "\<exists>f. impl c = Some (FormulaImpl f)"
      by (auto simp: holds_formula_def formula_of_Some_iff)
  qed
qed

lemma well_formed_referrers:
  assumes "well_formed s"
  shows "referrers_hold_formulas s"
  unfolding referrers_hold_formulas_alt
proof (intro allI impI)
  fix p c q assume a: "GetCell s p = Some c \<and> q \<in> set (referring_cells c)"
  then have "(p, q) \<in> referring_edges s" by (auto simp: referring_edges_def)
  with assms have "(q, p) \<in> referenced_edges s"
    by (auto simp: well_formed_def edges_symmetric_iff)
  with assms show "holds_formula s q"
    unfolding well_formed_def references_come_from_formulas_alt by blast
qed

lemma EraseEdges_holds_formula:
  assumes "EraseEdges s pos = Some s1"
  shows "holds_formula s1 q = holds_formula s q"
proof -
  from EraseEdges_effect[OF assms] obtain c t where
    c: "GetCell s pos = Some c" and t: "ClearCaches (referring_cells c) s = Some t"
    and g': "\<forall>q. GetCell s1 q = map_option (trim pos (set (referenced_cells c)) q) (GetCell t q)"
    by blast
  have "holds_formula s1 q = holds_formula t q"
    by (cases "GetCell t q") (auto simp: holds_formula_def g'[rule_format])
  then show ?thesis
    by (simp add: cache_step_holds_formula[OF ClearCaches_cache_step[OF t]])
qed

lemma holds_formula_impl_cong:
  "map_option impl (GetCell t q) = map_option impl (GetCell s q)
     \<Longrightarrow> holds_formula t q = holds_formula s q"
  by (cases "GetCell t q"; cases "GetCell s q") (auto simp: holds_formula_def formula_of_def)

lemma AddEdges_holds_formula:
  assumes "GetCell s pos = Some c0" "AddEdges pos refs s = Some s'"
  shows "holds_formula s' q = holds_formula s q"
proof (cases "GetCell s q = None \<and> q \<in> set refs")
  case True
  with AddEdges_impl[OF assms, of q] have "map_option impl (GetCell s' q) = Some (Some EmptyImpl)"
    by simp
  then have "\<not> holds_formula s' q"
    by (cases "GetCell s' q") (auto simp: holds_formula_def formula_of_def)
  moreover have "\<not> holds_formula s q" using True by (simp add: holds_formula_def)
  ultimately show ?thesis by simp
next
  case False
  with AddEdges_impl[OF assms, of q]
  have "map_option impl (GetCell s' q) = map_option impl (GetCell s q)" by auto
  then show ?thesis by (rule holds_formula_impl_cong)
qed

lemma assign_impl_holds_formula:
  "holds_formula (assign_impl pos i s) q
     = (if q = pos then GetCell s pos \<noteq> None \<and> (\<exists>f. i = FormulaImpl f) else holds_formula s q)"
  by (cases "GetCell s pos"; cases i)
     (auto simp: holds_formula_def GetCell_assign_impl formula_of_def)

lemma EraseEdges_well_formed:
  assumes "well_formed s" "EraseEdges s pos = Some s1"
  shows "well_formed s1"
proof -
  from assms(1) have sym: "edges_symmetric s" and rf: "references_come_from_formulas s"
    by (simp_all add: well_formed_def)
  have "references_come_from_formulas s1"
    using rf unfolding references_come_from_formulas_alt
      EraseEdges_symmetric(2)[OF sym assms(2)] EraseEdges_holds_formula[OF assms(2)]
    by blast
  with EraseEdges_symmetric(1)[OF sym assms(2)] show ?thesis by (simp add: well_formed_def)
qed

lemma EraseEdges_no_edges_from_pos:
  assumes "EraseEdges s pos = Some s1"
  shows "(pos, b) \<notin> referenced_edges s1"
  by (simp add: EraseEdges_referenced_edges[OF assms])

lemma Set_keeps_well_formed_Returns:
  assumes "well_formed s" "Set FS PF s pos text = Returns s'"
  shows "well_formed s'"
proof -
  from assms(1) have sym: "edges_symmetric s" by (simp add: well_formed_def)
  note sym' = Set_Returns_symmetric[OF sym assms(2)]
  from assms(2) have "references_come_from_formulas s'"
  proof (cases rule: Set_Returns_cases)
    case (Empty s1)
    from EraseEdges_well_formed[OF assms(1) Empty(1)]
    have rf: "\<forall>p b. (p, b) \<in> referenced_edges s1 \<longrightarrow> holds_formula s1 p"
      by (simp add: well_formed_def references_come_from_formulas_alt)
    show ?thesis
      unfolding references_come_from_formulas_alt Empty(3)
    proof (intro allI impI)
      fix p b assume e: "(p, b) \<in> referenced_edges (assign_impl pos EmptyImpl s1)"
      then have e1: "(p, b) \<in> referenced_edges s1" by simp
      with EraseEdges_no_edges_from_pos[OF Empty(1), of b] have "p \<noteq> pos" by auto
      with rf[rule_format, OF e1] show "holds_formula (assign_impl pos EmptyImpl s1) p"
        by (simp add: assign_impl_holds_formula)
    qed
  next
    case (Text s1)
    from EraseEdges_well_formed[OF assms(1) Text(1)]
    have rf: "\<forall>p b. (p, b) \<in> referenced_edges s1 \<longrightarrow> holds_formula s1 p"
      by (simp add: well_formed_def references_come_from_formulas_alt)
    show ?thesis
      unfolding references_come_from_formulas_alt Text(4)
    proof (intro allI impI)
      fix p b assume e: "(p, b) \<in> referenced_edges (assign_impl pos (TextImpl text) s1)"
      then have e1: "(p, b) \<in> referenced_edges s1" by simp
      with EraseEdges_no_edges_from_pos[OF Text(1), of b] have "p \<noteq> pos" by auto
      with rf[rule_format, OF e1] show "holds_formula (assign_impl pos (TextImpl text) s1) p"
        by (simp add: assign_impl_holds_formula)
    qed
  next
    case (Formula s1 visited s2)
    from EraseEdges_well_formed[OF assms(1) Formula(1)]
    have rf: "\<forall>p b. (p, b) \<in> referenced_edges s1 \<longrightarrow> holds_formula s1 p"
      by (simp add: well_formed_def references_come_from_formulas_alt)
    from EraseEdges_GetCell_pos[OF Formula(1)] obtain c1 where c1: "GetCell s1 pos = Some c1"
      by blast
    from AddEdges_effect[OF c1, of "references (PF (tl text))"] Formula(6)
    obtain c2 where c2: "GetCell s2 pos = Some c2" by auto
    show ?thesis
      unfolding references_come_from_formulas_alt Formula(7)
    proof (intro allI impI)
      fix p b
      assume e: "(p, b) \<in> referenced_edges (assign_impl pos (FormulaImpl (PF (tl text))) s2)"
      show "holds_formula (assign_impl pos (FormulaImpl (PF (tl text))) s2) p"
      proof (cases "p = pos")
        case True
        with c2 show ?thesis by (simp add: assign_impl_holds_formula)
      next
        case False
        with e have "(p, b) \<in> referenced_edges s1"
          by (auto simp: AddEdges_referenced_edges[OF c1 Formula(6)])
        with rf have "holds_formula s1 p" by blast
        with False show ?thesis
          by (simp add: assign_impl_holds_formula AddEdges_holds_formula[OF c1 Formula(6)])
      qed
    qed
  qed
  with sym' show ?thesis by (simp add: well_formed_def)
qed

lemma Set_keeps_well_formed_Throws:
  assumes "well_formed s" "Set FS PF s pos text = Throws s'"
  shows "well_formed s'"
  using EraseEdges_well_formed[OF assms(1)] Set_Throws_cases[OF assms(2)] by blast

lemma Set_defined:
  assumes "referrers_hold_formulas s" "others_initialised s pos" "GetCell s pos = Some c"
  shows "Set FS PF s pos text \<noteq> Undefined"
proof (cases "text \<noteq> [] \<and> hd text = FS \<and> 1 < length text")
  case True
  with Set_formula_outcome[OF assms, of "text" FS PF] show ?thesis
    by (auto split: if_splits)
next
  case False
  from EraseEdges_defined_wf[OF assms(1,3)] obtain s1 where "EraseEdges s pos = Some s1" by auto
  with False show ?thesis by (auto simp: Set_def)
qed

lemma Set_Returns_initialised:
  assumes "others_initialised s pos" "Set FS PF s pos text = Returns s'"
    and "GetCell s' q = Some c'"
  shows "impl c' \<noteq> None"
proof (cases "q = pos")
  case True
  with Set_Returns_impl[OF assms(2)] assms(3) show ?thesis by auto
next
  case False
  have *: "impl c' \<noteq> None"
    if e: "EraseEdges s pos = Some s1" and m: "map_option impl (GetCell s' q) =
          (if GetCell s1 q = None \<and> q \<in> R then Some (Some EmptyImpl)
           else map_option impl (GetCell s1 q))" for s1 R
  proof (cases "GetCell s1 q")
    case None
    with m assms(3) show ?thesis by (auto split: if_splits)
  next
    case (Some c1)
    with EraseEdges_others_initialised[OF e assms(1)] False have "impl c1 \<noteq> None"
      by (auto simp: others_initialised_def)
    with m Some assms(3) show ?thesis by auto
  qed
  from assms(2) show ?thesis
  proof (cases rule: Set_Returns_cases)
    case (Empty s1)
    show ?thesis
      by (rule *[OF Empty(1), of "{}"]) (simp add: Empty(3) GetCell_assign_impl False)
  next
    case (Text s1)
    show ?thesis
      by (rule *[OF Text(1), of "{}"]) (simp add: Text(4) GetCell_assign_impl False)
  next
    case (Formula s1 visited s2)
    from EraseEdges_GetCell_pos[OF Formula(1)] obtain c1 where c1: "GetCell s1 pos = Some c1"
      by blast
    show ?thesis
      by (rule *[OF Formula(1), of "set (references (PF (tl text)))"])
         (simp add: Formula(7) GetCell_assign_impl False AddEdges_impl[OF c1 Formula(6)])
  qed
qed

lemma CheckCircularError_Passed:
  assumes "CheckCircularError s pos refs = Passed V" "r \<in> set refs"
  shows "(r, pos) \<notin> (content_edge s)\<^sup>*"
proof
  assume reach: "(r, pos) \<in> (content_edge s)\<^sup>*"
  from visit_complete[OF assms(1)[unfolded CheckCircularError_def]]
  have refs: "set refs \<subseteq> V" and np: "pos \<notin> V"
    and closed: "\<And>x y. x \<in> V \<Longrightarrow> (x, y) \<in> content_edge s \<Longrightarrow> y \<in> V"
    by simp_all
  from reach have "r \<in> V \<Longrightarrow> pos \<in> V"
    by (induction rule: rtrancl_induct) (auto intro: closed)
  with assms(2) refs np show False by auto
qed

lemma trancl_through_new_edges:
  assumes "(a, b) \<in> (A \<union> {pos} \<times> R)\<^sup>+"
  shows "(a, b) \<in> A\<^sup>+ \<or> ((a, pos) \<in> A\<^sup>* \<and> (\<exists>r \<in> R. (r, b) \<in> A\<^sup>*))"
  using assms
proof (induction rule: trancl_induct)
  case (base y)
  then show ?case by auto
next
  case (step y z)
  from step.hyps(2) show ?case
  proof
    assume yz: "(y, z) \<in> A"
    from step.IH show ?thesis
    proof
      assume "(a, y) \<in> A\<^sup>+"
      with yz have "(a, z) \<in> A\<^sup>+" by (rule trancl_into_trancl[rotated])
      then show ?thesis by simp
    next
      assume "(a, pos) \<in> A\<^sup>* \<and> (\<exists>r \<in> R. (r, y) \<in> A\<^sup>*)"
      then obtain r where "(a, pos) \<in> A\<^sup>*" "r \<in> R" "(r, y) \<in> A\<^sup>*" by blast
      with yz have "(r, z) \<in> A\<^sup>*" by (meson rtrancl_into_rtrancl)
      with \<open>(a, pos) \<in> A\<^sup>*\<close> \<open>r \<in> R\<close> show ?thesis by blast
    qed
  next
    assume "(y, z) \<in> {pos} \<times> R"
    then have y: "y = pos" and z: "z \<in> R" by auto
    from step.IH have "(a, pos) \<in> A\<^sup>*"
    proof
      assume "(a, y) \<in> A\<^sup>+"
      with y show ?thesis by auto
    next
      assume "(a, pos) \<in> A\<^sup>* \<and> (\<exists>r \<in> R. (r, y) \<in> A\<^sup>*)"
      then show ?thesis by simp
    qed
    with z show ?thesis by blast
  qed
qed

lemma acyclic_new_edges:
  assumes "acyclic A" "\<And>r. r \<in> R \<Longrightarrow> (r, pos) \<notin> A\<^sup>*" "E \<subseteq> A \<union> {pos} \<times> R"
  shows "acyclic E"
  unfolding acyclic_def
proof (intro allI notI)
  fix x assume "(x, x) \<in> E\<^sup>+"
  with trancl_mono[OF _ assms(3)] have "(x, x) \<in> (A \<union> {pos} \<times> R)\<^sup>+" by blast
  from trancl_through_new_edges[OF this] show False
  proof
    assume "(x, x) \<in> A\<^sup>+"
    with assms(1) show False by (simp add: acyclic_def)
  next
    assume "(x, pos) \<in> A\<^sup>* \<and> (\<exists>r \<in> R. (r, x) \<in> A\<^sup>*)"
    then obtain r where "r \<in> R" "(r, x) \<in> A\<^sup>*" "(x, pos) \<in> A\<^sup>*" by blast
    then have "(r, pos) \<in> A\<^sup>*" by auto
    with assms(2)[OF \<open>r \<in> R\<close>] show False by simp
  qed
qed

lemma Set_Returns_other_references:
  assumes "Set FS PF s pos text = Returns s'" "q \<noteq> pos" "GetCell s' q = Some c'"
    "GetReferencedCells c' = Some refs" "b \<in> set refs"
  shows "(q, b) \<in> content_edge s"
proof -
  have *: "(q, b) \<in> content_edge s"
    if e: "EraseEdges s pos = Some s1" and m: "map_option impl (GetCell s' q) =
          (if GetCell s1 q = None \<and> q \<in> R then Some (Some EmptyImpl)
           else map_option impl (GetCell s1 q))" for s1 R
  proof (cases "GetCell s1 q")
    case None
    with m assms(3,4,5) show ?thesis
      by (auto simp: GetReferencedCells_def split: if_splits)
  next
    case (Some c1)
    with m assms(3) have "impl c' = impl c1" by simp
    with assms(4) have "GetReferencedCells c1 = Some refs" by (simp add: GetReferencedCells_def)
    with Some assms(5) have "(q, b) \<in> content_edge s1" by (auto simp: content_edge_def)
    then show ?thesis by (simp add: EraseEdges_content_edge[OF e])
  qed
  from assms(1) show ?thesis
  proof (cases rule: Set_Returns_cases)
    case (Empty s1)
    show ?thesis
      by (rule *[OF Empty(1), of "{}"]) (simp add: Empty(3) GetCell_assign_impl assms(2))
  next
    case (Text s1)
    show ?thesis
      by (rule *[OF Text(1), of "{}"]) (simp add: Text(4) GetCell_assign_impl assms(2))
  next
    case (Formula s1 visited s2)
    from EraseEdges_GetCell_pos[OF Formula(1)] obtain c1 where c1: "GetCell s1 pos = Some c1"
      by blast
    show ?thesis
      by (rule *[OF Formula(1), of "set (references (PF (tl text)))"])
         (simp add: Formula(7) GetCell_assign_impl assms(2) AddEdges_impl[OF c1 Formula(6)])
  qed
qed

lemma Set_Returns_content_edge:
  assumes "Set FS PF s pos text = Returns s'"
  shows "content_edge s' \<subseteq> content_edge s \<union> {pos} \<times>
           (if text \<noteq> [] \<and> hd text = FS \<and> 1 < length text
            then set (references (PF (tl text))) else {})"
proof
  fix e assume "e \<in> content_edge s'"
  then obtain a b c' refs where e: "e = (a, b)" and c': "GetCell s' a = Some c'"
    and g: "GetReferencedCells c' = Some refs" and b: "b \<in> set refs"
    by (auto simp: content_edge_def)
  show "e \<in> content_edge s \<union> {pos} \<times>
           (if text \<noteq> [] \<and> hd text = FS \<and> 1 < length text
            then set (references (PF (tl text))) else {})"
  proof (cases "a = pos")
    case False
    from Set_Returns_other_references[OF assms False c' g b] show ?thesis by (simp add: e)
  next
    case True
    from Set_Returns_impl[OF assms] c' True
    have "impl c' = Some (if text = [] then EmptyImpl
                                else if hd text = FS \<and> 1 < length text
                                     then FormulaImpl (PF (tl text))
                                else TextImpl text)" by auto
    with g b True show ?thesis
      by (auto simp: GetReferencedCells_def e split: if_splits)
  qed
qed

lemma Set_Returns_acyclic:
  assumes "acyclic (content_edge s)" "Set FS PF s pos text = Returns s'"
  shows "acyclic (content_edge s')"
proof (rule acyclic_new_edges[OF assms(1) _ Set_Returns_content_edge[OF assms(2)]])
  fix r
  assume r: "r \<in> (if text \<noteq> [] \<and> hd text = FS \<and> 1 < length text
            then set (references (PF (tl text))) else {})"
  then have t: "text \<noteq> []" "hd text = FS" "1 < length text"
    and r': "r \<in> set (references (PF (tl text)))" by (auto split: if_splits)
  from assms(2) t obtain s1 V where e: "EraseEdges s pos = Some s1"
    and c: "CheckCircularError s1 pos (references (PF (tl text))) = Passed V"
    by (cases rule: Set_Returns_cases) auto
  from CheckCircularError_Passed[OF c r'] show "(r, pos) \<notin> (content_edge s)\<^sup>*"
    by (simp add: EraseEdges_content_edge[OF e])
qed

lemma Set_Throws_content_edge:
  assumes "Set FS PF s pos text = Throws s'"
  shows "content_edge s' = content_edge s"
  using Set_Throws_cases[OF assms] EraseEdges_content_edge[of s pos s'] by simp

lemma Set_Returns_plain_edges:
  assumes "Set FS PF s pos text = Returns s'"
    "\<not> (text \<noteq> [] \<and> hd text = FS \<and> 1 < length text)"
  shows "referenced_edges s' = referenced_edges s - {pos} \<times> UNIV"
    and "referring_edges s'
           = referring_edges s - {(b, a). a = pos \<and> (pos, b) \<in> referenced_edges s}"
proof -
  from assms obtain s1 i where e: "EraseEdges s pos = Some s1" and s': "s' = assign_impl pos i s1"
    by (cases rule: Set_Returns_cases) auto
  show "referenced_edges s' = referenced_edges s - {pos} \<times> UNIV"
    by (simp add: s' EraseEdges_referenced_edges[OF e])
  show "referring_edges s'
           = referring_edges s - {(b, a). a = pos \<and> (pos, b) \<in> referenced_edges s}"
    by (simp add: s' EraseEdges_referring_edges[OF e])
qed

lemma chain_sheet_references_come_from_formulas:
  "references_come_from_formulas (chain_sheet a b)"
  by (auto simp: references_come_from_formulas_def chain_sheet_def split: if_splits)

lemma chain_sheet_D1_well_formed_parts:
  "GetCell chain_sheet_D1 ''C1''
     = Some \<lparr>impl = Some (FormulaImpl (single_reference ''D1'')), referring_cells = [''B1''],
             referenced_cells = [''D1'']\<rparr>"
  by (simp add: chain_sheet_D1_def)

lemma fresh_sheet_content_edge:
  "content_edge (fmupd ''A1'' new_Cell fmempty) = {}"
  by (auto simp: content_edge_def new_Cell_def GetReferencedCells_def split: if_splits)

lemma Set_fresh_A1:
  "Set (CHR ''='') single_reference (fmupd ''A1'' new_Cell fmempty) ''A1'' ''=B1''
     = Returns (fmupd ''A1''
                 \<lparr>impl = Some (FormulaImpl (single_reference ''B1'')), referring_cells = [],
                    referenced_cells = [''B1'']\<rparr>
               (fmupd ''B1''
                 \<lparr>impl = Some EmptyImpl, referring_cells = [''A1''], referenced_cells = []\<rparr>
                fmempty))"
  by (simp add: example_simps; rule fmap_ext; auto)

lemma Set_chain_sheet_text:
  "Set (CHR ''='') single_reference (chain_sheet False False) ''B1'' ''text''
     = Returns (fmupd ''B1''
                  \<lparr>impl = Some (TextImpl ''text''), referring_cells = [''A1''],
                     referenced_cells = []\<rparr>
               (fmupd ''C1''
                  \<lparr>impl = Some EmptyImpl, referring_cells = [], referenced_cells = []\<rparr>
                  (chain_sheet False False)))"
  by (simp add: example_simps; rule fmap_ext; auto)

lemma Set_Throws_reachable:
  assumes "Set FS PF s pos text = Throws s'"
  shows "\<exists>r \<in> set (references (PF (tl text))). (r, pos) \<in> (content_edge s)\<^sup>*"
proof -
  from Set_Throws_cases[OF assms] have e: "EraseEdges s pos = Some s'"
    and c: "CheckCircularError s' pos (references (PF (tl text))) = CircularDependencyException"
    by simp_all
  from visit_sound[OF c[unfolded CheckCircularError_def]]
  show ?thesis by (simp add: EraseEdges_content_edge[OF e])
qed

lemma Set_Returns_unreachable:
  assumes "Set FS PF s pos text = Returns s'" "text \<noteq> []" "hd text = FS" "1 < length text"
    "r \<in> set (references (PF (tl text)))"
  shows "(r, pos) \<notin> (content_edge s)\<^sup>*"
proof -
  from assms(1-4) obtain s1 V where e: "EraseEdges s pos = Some s1"
    and c: "CheckCircularError s1 pos (references (PF (tl text))) = Passed V"
    by (cases rule: Set_Returns_cases) auto
  from CheckCircularError_Passed[OF c assms(5)] show ?thesis
    by (simp add: EraseEdges_content_edge[OF e])
qed

lemma formula_value_GetValue:
  "Impl_GetValue ESCAPE_SIGN (\<lambda>f sheet. result) sh (FormulaImpl f) = formula_value result"
  by (simp add: formula_value_def)

lemma GetValue_memo_plain:
  assumes "GetCell (fst state) pos = Some cell" and "impl cell \<noteq> None"
    and "formula_of cell = None"
  shows "GetValue_memo (Suc fuel) ESCAPE_SIGN compute state pos
           = Some (GetValue ESCAPE_SIGN Evaluate sh cell, state)"
  using assms
  by (cases "impl cell") (auto simp: GetValue_def formula_of_def split: Impl.splits)

section \<open>The claims\<close>

text \<open>
  C1. The claim is that a Set rejected for a circular dependency leaves content, edges
  and caches as they were. Set calls EraseEdges before it classifies the text and before
  the cycle check, so the state a rejected call leaves is not the state before the call.
  On the chain with both caches populated, setting B1 to \<open>=A1\<close> throws; afterwards B1
  still holds its formula over C1, but its referenced set is empty, C1 no longer lists
  B1 as a referrer, and the cache of A1 is gone.
\<close>

theorem circular_rejection_erases_edges:
  "Set (CHR ''='') single_reference (chain_sheet True True) ''B1'' ''=A1''
   = Throws
      (fmupd ''A1''
         \<lparr>impl = Some (FormulaImpl \<lparr>expression = ''B1'', references = [''B1''],
                                    has_cache = False\<rparr>),
          referring_cells = [], referenced_cells = [''B1'']\<rparr>
      (fmupd ''B1''
         \<lparr>impl = Some (FormulaImpl \<lparr>expression = ''C1'', references = [''C1''],
                                    has_cache = True\<rparr>),
          referring_cells = [''A1''], referenced_cells = []\<rparr>
      (fmupd ''C1''
         \<lparr>impl = Some EmptyImpl, referring_cells = [], referenced_cells = []\<rparr>
       fmempty)))"
  by (simp add: example_simps; rule fmap_ext; auto)

text \<open>
  C2. The claim is that Set with a formula text throws the circular-dependency exception
  if and only if the cell's position is reachable from the new reference list. The
  traversal dereferences the content of every cell it visits before it reaches that
  position, and a cell that was constructed and never set has none. Setting a fresh A1
  to \<open>=A1\<close> throws and leaves A1 without content; on the sheet with a fresh B1 beside it,
  setting B1 to \<open>=A1+B1\<close> visits A1 first and is undefined behaviour, although B1 is in
  its own reference list.
\<close>

theorem cycle_check_undefined_counterexample:
  "Set (CHR ''='') sum_references (fmupd ''A1'' new_Cell fmempty) ''A1'' ''=A1''
     = Throws (fmupd ''A1'' new_Cell fmempty)
   \<and> ''B1'' \<in> set (references (sum_references (tl ''=A1+B1'')))
   \<and> (''B1'', ''B1'')
        \<in> (content_edge (fmupd ''B1'' new_Cell (fmupd ''A1'' new_Cell fmempty)))\<^sup>*
   \<and> Set (CHR ''='') sum_references (fmupd ''B1'' new_Cell (fmupd ''A1'' new_Cell fmempty))
        ''B1'' ''=A1+B1'' = Undefined"
proof -
  have 1: "Set (CHR ''='') sum_references (fmupd ''A1'' new_Cell fmempty) ''A1'' ''=A1''
     = Throws (fmupd ''A1'' new_Cell fmempty)"
    by (simp add: example_simps sum_references_def; rule fmap_ext; auto)
  have 2: "''B1'' \<in> set (references (sum_references (tl ''=A1+B1'')))"
    by (simp add: sum_references_def)
  have 3: "Set (CHR ''='') sum_references (fmupd ''B1'' new_Cell (fmupd ''A1'' new_Cell fmempty))
        ''B1'' ''=A1+B1'' = Undefined"
    by (simp add: example_simps sum_references_def)
  from 1 2 3 show ?thesis by simp
qed

text \<open>
  C2, as amended. Whenever Set with a formula text returns or throws, it throws the
  circular-dependency exception if and only if the cell's position is reachable from a
  position of the new reference list along the references of the committed contents,
  where a position without a cell has no outgoing edge. It does return or throw on every
  sheet where every referrer holds a formula and every cell other than the one being
  set has content.
\<close>

theorem cycle_detected_iff_reachable:
  assumes "text \<noteq> []" and "hd text = FORMULA_SIGN" and "1 < length text"
  shows "(Set FORMULA_SIGN ParseFormula sheet pos text \<noteq> Undefined
            \<longrightarrow> ((\<exists>sheet'. Set FORMULA_SIGN ParseFormula sheet pos text = Throws sheet')
                   \<longleftrightarrow> (\<exists>r \<in> set (references (ParseFormula (tl text))).
                          (r, pos) \<in> (content_edge sheet)\<^sup>*)))
         \<and> (referrers_hold_formulas sheet \<and> others_initialised sheet pos
              \<and> GetCell sheet pos \<noteq> None
            \<longrightarrow> Set FORMULA_SIGN ParseFormula sheet pos text \<noteq> Undefined)"
proof (intro conjI impI)
  assume d: "Set FORMULA_SIGN ParseFormula sheet pos text \<noteq> Undefined"
  show "(\<exists>sheet'. Set FORMULA_SIGN ParseFormula sheet pos text = Throws sheet')
          \<longleftrightarrow> (\<exists>r \<in> set (references (ParseFormula (tl text))).
                 (r, pos) \<in> (content_edge sheet)\<^sup>*)"
  proof (cases "Set FORMULA_SIGN ParseFormula sheet pos text")
    case (Returns s')
    from Set_Returns_unreachable[OF Returns assms]
    have "\<not> (\<exists>r \<in> set (references (ParseFormula (tl text))).
                 (r, pos) \<in> (content_edge sheet)\<^sup>*)" by blast
    with Returns show ?thesis by simp
  next
    case (Throws s')
    from Set_Throws_reachable[OF Throws] Throws show ?thesis by simp
  next
    case Undefined
    with d show ?thesis by simp
  qed
next
  assume a: "referrers_hold_formulas sheet \<and> others_initialised sheet pos
              \<and> GetCell sheet pos \<noteq> None"
  then obtain cell where "GetCell sheet pos = Some cell" by auto
  with a show "Set FORMULA_SIGN ParseFormula sheet pos text \<noteq> Undefined"
    using Set_defined[of sheet pos cell FORMULA_SIGN ParseFormula "text"] by simp
qed

theorem cycle_detected_iff_reachable_witness:
  "referrers_hold_formulas (chain_sheet False False)
   \<and> others_initialised (chain_sheet False False) ''C1''
   \<and> GetCell (chain_sheet False False) ''C1'' \<noteq> None
   \<and> Set (CHR ''='') single_reference (chain_sheet False False) ''C1'' ''=A1'' \<noteq> Undefined
   \<and> (\<exists>r \<in> set (references (single_reference (tl ''=A1''))).
         (r, ''C1'') \<in> (content_edge (chain_sheet False False))\<^sup>*)
   \<and> (\<exists>sheet'. Set (CHR ''='') single_reference (chain_sheet False False) ''C1'' ''=A1''
                  = Throws sheet')"
proof -
  have c: "GetCell (chain_sheet False False) ''C1'' \<noteq> None"
    by (simp add: chain_sheet_def)
  have r: "\<exists>r \<in> set (references (single_reference (tl ''=A1''))).
             (r, ''C1'') \<in> (content_edge (chain_sheet False False))\<^sup>*"
    using chain_sheet_content_path[of False False] by (simp add: single_reference_def)
  have p: "''=A1'' \<noteq> []" "hd ''=A1'' = CHR ''=''" "1 < length ''=A1''" by simp_all
  note t = cycle_detected_iff_reachable[OF p, of single_reference
             "chain_sheet False False" "''C1''"]
  from t c chain_sheet_well_formed(1)[of False False]
    chain_sheet_well_formed(2)[of False False "''C1''"]
  have d: "Set (CHR ''='') single_reference (chain_sheet False False) ''C1'' ''=A1'' \<noteq> Undefined"
    by blast
  with t r
  have "\<exists>sheet'. Set (CHR ''='') single_reference (chain_sheet False False) ''C1'' ''=A1''
                  = Throws sheet'" by blast
  with r c d chain_sheet_well_formed(1,2) show ?thesis by blast
qed

text \<open>
  C3. The claim is that a completed Set clears the cache of every transitive referrer
  whatever the cache states met on the way. ClearCaches stops at a referrer without a
  cache: on the chain where A1 holds a cache and B1 does not, setting C1 returns and
  the cache of A1 is still there.
\<close>

theorem stale_cache_survives_counterexample:
  "Set (CHR ''='') single_reference (chain_sheet True False) ''C1'' ''5''
     = Returns (fmupd ''C1''
                  \<lparr>impl = Some (TextImpl ''5''), referring_cells = [''B1''],
                     referenced_cells = []\<rparr>
                  (chain_sheet True False))
   \<and> (''C1'', ''A1'') \<in> (referring_edges (chain_sheet True False))\<^sup>+
   \<and> has_cache_at (fmupd ''C1''
                  \<lparr>impl = Some (TextImpl ''5''), referring_cells = [''B1''],
                     referenced_cells = []\<rparr>
                  (chain_sheet True False)) ''A1''"
proof -
  have 1: "Set (CHR ''='') single_reference (chain_sheet True False) ''C1'' ''5''
     = Returns (fmupd ''C1''
                  \<lparr>impl = Some (TextImpl ''5''), referring_cells = [''B1''],
                     referenced_cells = []\<rparr>
                  (chain_sheet True False))"
    by (simp add: example_simps; rule fmap_ext; auto)
  have "(''C1'', ''B1'') \<in> referring_edges (chain_sheet True False)"
    by (simp add: referring_edges_def chain_sheet_def)
  moreover have "(''B1'', ''A1'') \<in> referring_edges (chain_sheet True False)"
    by (simp add: referring_edges_def chain_sheet_def)
  ultimately have 2: "(''C1'', ''A1'') \<in> (referring_edges (chain_sheet True False))\<^sup>+"
    by (meson trancl.simps)
  have 3: "has_cache_at (fmupd ''C1''
                  \<lparr>impl = Some (TextImpl ''5''), referring_cells = [''B1''],
                     referenced_cells = []\<rparr>
                  (chain_sheet True False)) ''A1''"
    by (simp add: has_cache_at_def chain_sheet_def)
  from 1 2 3 show ?thesis by blast
qed

text \<open>
  C3, as amended. After a completed Set at \<open>pos\<close>, a cell other than \<open>pos\<close> holds a cache
  exactly when it held one before and is not reachable from \<open>pos\<close> along referring edges
  through cells that all hold a cache.
\<close>

theorem caches_cleared_along_cached_referrers:
  assumes "Set FORMULA_SIGN ParseFormula sheet pos text = Returns sheet'" and "x \<noteq> pos"
  shows "has_cache_at sheet' x
           \<longleftrightarrow> has_cache_at sheet x \<and> (pos, x) \<notin> (cached_referrer sheet)\<^sup>+"
  using assms by (rule Set_Returns_has_cache_at)

theorem caches_cleared_along_cached_referrers_witness:
  "Set (CHR ''='') single_reference (chain_sheet True True) ''C1'' ''5''
     = Returns (fmupd ''C1''
                  \<lparr>impl = Some (TextImpl ''5''), referring_cells = [''B1''],
                     referenced_cells = []\<rparr>
                  (chain_sheet False False))
   \<and> ''A1'' \<noteq> ''C1''
   \<and> has_cache_at (chain_sheet True True) ''A1''
   \<and> (''C1'', ''A1'') \<in> (cached_referrer (chain_sheet True True))\<^sup>+
   \<and> \<not> has_cache_at (fmupd ''C1''
                  \<lparr>impl = Some (TextImpl ''5''), referring_cells = [''B1''],
                     referenced_cells = []\<rparr>
                  (chain_sheet False False)) ''A1''"
proof -
  have 1: "Set (CHR ''='') single_reference (chain_sheet True True) ''C1'' ''5''
     = Returns (fmupd ''C1''
                  \<lparr>impl = Some (TextImpl ''5''), referring_cells = [''B1''],
                     referenced_cells = []\<rparr>
                  (chain_sheet False False))"
    by (simp add: example_simps; rule fmap_ext; auto)
  have 2: "''A1'' \<noteq> ''C1''" by simp
  have 3: "has_cache_at (chain_sheet True True) ''A1''"
    by (simp add: has_cache_at_def chain_sheet_def)
  have "(''C1'', ''B1'') \<in> cached_referrer (chain_sheet True True)"
    by (simp add: cached_referrer_def has_cache_at_def chain_sheet_def)
  moreover have "(''B1'', ''A1'') \<in> cached_referrer (chain_sheet True True)"
    by (simp add: cached_referrer_def has_cache_at_def chain_sheet_def)
  ultimately have 4: "(''C1'', ''A1'') \<in> (cached_referrer (chain_sheet True True))\<^sup>+"
    by (meson trancl.simps)
  from caches_cleared_along_cached_referrers[OF 1 2] 4
  have 5: "\<not> has_cache_at (fmupd ''C1''
                  \<lparr>impl = Some (TextImpl ''5''), referring_cells = [''B1''],
                     referenced_cells = []\<rparr>
                  (chain_sheet False False)) ''A1''" by simp
  from 1 2 3 4 5 show ?thesis by blast
qed

text \<open>
  C4. Graph symmetry is kept by every completed Set: if the referenced and referring
  sets of a sheet mirror each other, they do so in the sheet that Set returns.
\<close>

theorem Set_keeps_edges_symmetric:
  assumes "edges_symmetric sheet"
    and "Set FORMULA_SIGN ParseFormula sheet pos text = Returns sheet'"
  shows "edges_symmetric sheet'"
  using assms by (rule Set_Returns_symmetric)

theorem Set_keeps_edges_symmetric_witness:
  "edges_symmetric (chain_sheet False False)
   \<and> Set (CHR ''='') single_reference (chain_sheet False False) ''C1'' ''=D1''
       = Returns chain_sheet_D1
   \<and> edges_symmetric chain_sheet_D1"
  using Set_keeps_edges_symmetric[OF chain_sheet_well_formed(3) Set_chain_sheet_D1]
    chain_sheet_well_formed(3)[of False False] Set_chain_sheet_D1
  by blast

text \<open>
  C5. The claim is that a position of a referring set at which the sheet holds no cell
  is skipped. The loop of EraseEdges does skip it, but ClearCaches dereferences the
  absent cell: on a sheet whose cell C1 lists the absent B1 as a referrer, the cache walk
  and with it Set at C1 run into undefined behaviour.
\<close>

theorem absent_referrer_is_dereferenced:
  "GetCell stale_sheet ''B1'' = None
   \<and> ClearCaches [''B1''] stale_sheet = None
   \<and> Set (CHR ''='') single_reference stale_sheet ''C1'' ''5'' = Undefined"
  by (simp add: example_simps)

text \<open>
  C6. A Set that returns leaves at its cell Empty content for the empty text, Formula
  content built from the text without its first character when the text starts with
  the formula marker and is longer than one character, and Text content holding the
  text unchanged in every other case.
\<close>

theorem Set_classifies_content:
  assumes "Set FORMULA_SIGN ParseFormula sheet pos text = Returns sheet'"
  shows "\<exists>cell. GetCell sheet' pos = Some cell
           \<and> impl cell = Some (if text = [] then EmptyImpl
                                else if hd text = FORMULA_SIGN \<and> 1 < length text
                                     then FormulaImpl (ParseFormula (tl text))
                                else TextImpl text)"
  using assms by (rule Set_Returns_impl)

theorem Set_classifies_content_witness:
  "Set (CHR ''='') single_reference (chain_sheet False False) ''C1'' ''=D1''
     = Returns chain_sheet_D1
   \<and> (\<exists>cell. GetCell chain_sheet_D1 ''C1'' = Some cell
         \<and> impl cell = Some (FormulaImpl (single_reference ''D1'')))
   \<and> Set (CHR ''='') single_reference (chain_sheet False False) ''C1'' ''=''
     = Returns (fmupd ''C1''
                  \<lparr>impl = Some (TextImpl ''=''), referring_cells = [''B1''],
                     referenced_cells = []\<rparr>
                  (chain_sheet False False))
   \<and> (\<exists>cell. GetCell (fmupd ''C1''
                  \<lparr>impl = Some (TextImpl ''=''), referring_cells = [''B1''],
                     referenced_cells = []\<rparr>
                  (chain_sheet False False)) ''C1'' = Some cell
         \<and> impl cell = Some (TextImpl ''=''))
   \<and> Set (CHR ''='') single_reference (chain_sheet False False) ''A1'' []
     = Returns (fmupd ''B1''
                  \<lparr>impl = Some (FormulaImpl (single_reference ''C1'')), referring_cells = [],
                     referenced_cells = [''C1'']\<rparr>
               (fmupd ''A1''
                  \<lparr>impl = Some EmptyImpl, referring_cells = [], referenced_cells = []\<rparr>
                  (chain_sheet False False)))
   \<and> (\<exists>cell. GetCell (fmupd ''B1''
                  \<lparr>impl = Some (FormulaImpl (single_reference ''C1'')), referring_cells = [],
                     referenced_cells = [''C1'']\<rparr>
               (fmupd ''A1''
                  \<lparr>impl = Some EmptyImpl, referring_cells = [], referenced_cells = []\<rparr>
                  (chain_sheet False False))) ''A1'' = Some cell
         \<and> impl cell = Some EmptyImpl)"
proof -
  have 1: "\<exists>cell. GetCell chain_sheet_D1 ''C1'' = Some cell
         \<and> impl cell = Some (FormulaImpl (single_reference ''D1''))"
    using Set_classifies_content[OF Set_chain_sheet_D1] by simp
  have 2: "\<exists>cell. GetCell (fmupd ''C1''
                  \<lparr>impl = Some (TextImpl ''=''), referring_cells = [''B1''],
                     referenced_cells = []\<rparr>
                  (chain_sheet False False)) ''C1'' = Some cell
         \<and> impl cell = Some (TextImpl ''='')"
    using Set_classifies_content[OF Set_chain_sheet_marker] by simp
  have 3: "\<exists>cell. GetCell (fmupd ''B1''
                  \<lparr>impl = Some (FormulaImpl (single_reference ''C1'')), referring_cells = [],
                     referenced_cells = [''C1'']\<rparr>
               (fmupd ''A1''
                  \<lparr>impl = Some EmptyImpl, referring_cells = [], referenced_cells = []\<rparr>
                  (chain_sheet False False))) ''A1'' = Some cell
         \<and> impl cell = Some EmptyImpl"
    using Set_classifies_content[OF Set_chain_sheet_empty] by simp
  from 1 2 3 Set_chain_sheet_D1 Set_chain_sheet_marker Set_chain_sheet_empty
  show ?thesis by (intro conjI)
qed

text \<open>
  C7. GetText is the empty string for Empty content, the raw stored string for Text
  content and the formula marker followed by the canonical expression for Formula
  content. GetValue is the empty string for Empty content; for Text content it is the
  stored string without its first character when that character is the escape marker,
  and the stored string itself otherwise.
\<close>

theorem rendering_contract:
  "Impl_GetText FORMULA_SIGN EmptyImpl = []
   \<and> Impl_GetText FORMULA_SIGN (TextImpl t) = t
   \<and> Impl_GetText FORMULA_SIGN (FormulaImpl f) = FORMULA_SIGN # expression f
   \<and> Impl_GetValue ESCAPE_SIGN Evaluate sheet EmptyImpl = StringValue []
   \<and> Impl_GetValue ESCAPE_SIGN Evaluate sheet (TextImpl (ESCAPE_SIGN # t)) = StringValue t
   \<and> Impl_GetValue ESCAPE_SIGN Evaluate sheet (TextImpl [])
        = (StringValue [] :: ('d, 'e) Value)
   \<and> Impl_GetValue ESCAPE_SIGN Evaluate sheet (TextImpl (c # t))
        = (StringValue (if c = ESCAPE_SIGN then t else c # t) :: ('d, 'e) Value)"
  by simp

text \<open>
  C8. When Set with a formula text returns, every position of the new reference list
  that had no cell holds an Empty cell, is in the referenced set of the cell that was
  set, and has that cell's position in its referring set. When Set throws, the sheet
  holds cells at exactly the positions it held them before.
\<close>

theorem references_are_vivified_and_linked:
  "(Set FORMULA_SIGN ParseFormula sheet pos text = Returns sheet'
      \<and> text \<noteq> [] \<and> hd text = FORMULA_SIGN \<and> 1 < length text
      \<and> p \<in> set (references (ParseFormula (tl text)))
    \<longrightarrow> (GetCell sheet p = None
           \<longrightarrow> (\<exists>cell. GetCell sheet' p = Some cell \<and> impl cell = Some EmptyImpl))
        \<and> (\<exists>cell. GetCell sheet' pos = Some cell \<and> p \<in> set (referenced_cells cell))
        \<and> (\<exists>cell. GetCell sheet' p = Some cell \<and> pos \<in> set (referring_cells cell)))
   \<and> (Set FORMULA_SIGN ParseFormula sheet pos text = Throws sheet''
    \<longrightarrow> (\<forall>q. GetCell sheet'' q = None \<longleftrightarrow> GetCell sheet q = None))"
proof (intro conjI impI allI)
  assume a: "Set FORMULA_SIGN ParseFormula sheet pos text = Returns sheet'
      \<and> text \<noteq> [] \<and> hd text = FORMULA_SIGN \<and> 1 < length text
      \<and> p \<in> set (references (ParseFormula (tl text)))"
  then have r: "Set FORMULA_SIGN ParseFormula sheet pos text = Returns sheet'"
    and t: "text \<noteq> []" "hd text = FORMULA_SIGN" "1 < length text"
    and p: "p \<in> set (references (ParseFormula (tl text)))" by simp_all
  {
    assume "GetCell sheet p = None"
    from Set_Returns_new_cells[OF r this] t p
    show "\<exists>cell. GetCell sheet' p = Some cell \<and> impl cell = Some EmptyImpl" by simp
  }
  from Set_Returns_formula_edges(1)[OF r t] p have "(pos, p) \<in> referenced_edges sheet'" by auto
  then show "\<exists>cell. GetCell sheet' pos = Some cell \<and> p \<in> set (referenced_cells cell)"
    by (simp add: referenced_edges_def)
  from Set_Returns_formula_edges(2)[OF r t] p have "(p, pos) \<in> referring_edges sheet'" by auto
  then show "\<exists>cell. GetCell sheet' p = Some cell \<and> pos \<in> set (referring_cells cell)"
    by (simp add: referring_edges_def)
next
  fix q
  assume "Set FORMULA_SIGN ParseFormula sheet pos text = Throws sheet''"
  then show "GetCell sheet'' q = None \<longleftrightarrow> GetCell sheet q = None"
    by (rule Set_Throws_dom)
qed

theorem references_are_vivified_and_linked_witness:
  "Set (CHR ''='') single_reference (chain_sheet False False) ''C1'' ''=D1''
     = Returns chain_sheet_D1
   \<and> GetCell (chain_sheet False False) ''D1'' = None
   \<and> (\<exists>cell. GetCell chain_sheet_D1 ''D1'' = Some cell \<and> impl cell = Some EmptyImpl)
   \<and> (\<exists>cell. GetCell chain_sheet_D1 ''C1'' = Some cell \<and> ''D1'' \<in> set (referenced_cells cell))
   \<and> (\<exists>cell. GetCell chain_sheet_D1 ''D1'' = Some cell \<and> ''C1'' \<in> set (referring_cells cell))"
proof -
  have n: "GetCell (chain_sheet False False) ''D1'' = None"
    by (simp add: chain_sheet_def)
  have p: "''D1'' \<in> set (references (single_reference (tl ''=D1'')))"
    by (simp add: single_reference_def)
  from references_are_vivified_and_linked[of "CHR ''=''" single_reference
         "chain_sheet False False" "''C1''" "''=D1''" chain_sheet_D1 "''D1''"]
    Set_chain_sheet_D1 n p
  show ?thesis by simp
qed

text \<open>
  C9. Starting from a sheet with a fresh cell at A1: set A1 to a formula over B1 and B1
  to a formula over C1, and read A1 once. The read returns the value computed from the
  Empty C1 and leaves a cache at both A1 and B1; reading A1 again returns the memoised
  value. Setting C1 to a literal text then returns, neither A1 nor B1 holds a cache
  afterwards, and the next read of A1 returns the value computed from the literal, not
  the memoised one.
\<close>

theorem transitive_invalidation_end_to_end:
  assumes "distinct [A1, B1, C1]"
    and "references (ParseFormula to_B1) = [B1]" and "references (ParseFormula to_C1) = [C1]"
    and "\<not> has_cache (ParseFormula to_B1)" and "\<not> has_cache (ParseFormula to_C1)"
    and "to_B1 \<noteq> []" and "to_C1 \<noteq> []"
    and "literal \<noteq> []" and "hd literal \<noteq> FORMULA_SIGN"
  shows "\<exists>sheet1 sheet2 sheet3 memo3 sheet4 state5.
           Set FORMULA_SIGN ParseFormula (fmupd A1 new_Cell fmempty) A1 (FORMULA_SIGN # to_B1)
             = Returns sheet1
         \<and> Set FORMULA_SIGN ParseFormula sheet1 B1 (FORMULA_SIGN # to_C1) = Returns sheet2
         \<and> GetValue_memo (Suc (Suc (Suc fuel))) ESCAPE_SIGN compute (sheet2, memo) A1
             = Some (Some (formula_value (compute (expression (ParseFormula to_B1))
                       [Some (formula_value (compute (expression (ParseFormula to_C1))
                          [Some (StringValue [])]))])),
                     (sheet3, memo3))
         \<and> has_cache_at sheet3 A1 \<and> has_cache_at sheet3 B1
         \<and> GetValue_memo (Suc (Suc (Suc fuel))) ESCAPE_SIGN compute (sheet3, memo3) A1
             = Some (Some (formula_value (compute (expression (ParseFormula to_B1))
                       [Some (formula_value (compute (expression (ParseFormula to_C1))
                          [Some (StringValue [])]))])),
                     (sheet3, memo3))
         \<and> Set FORMULA_SIGN ParseFormula sheet3 C1 literal = Returns sheet4
         \<and> \<not> has_cache_at sheet4 A1 \<and> \<not> has_cache_at sheet4 B1
         \<and> (\<exists>cell. GetCell sheet4 C1 = Some cell \<and> impl cell = Some (TextImpl literal))
         \<and> GetValue_memo (Suc (Suc (Suc fuel))) ESCAPE_SIGN compute (sheet4, memo3) A1
             = Some (Some (formula_value (compute (expression (ParseFormula to_B1))
                       [Some (formula_value (compute (expression (ParseFormula to_C1))
                          [Some (if hd literal = ESCAPE_SIGN then StringValue (tl literal)
                                 else StringValue literal)]))])),
                     state5)"
proof -
  from assms(1) have ne: "A1 \<noteq> B1" "B1 \<noteq> A1" "A1 \<noteq> C1" "C1 \<noteq> A1" "B1 \<noteq> C1" "C1 \<noteq> B1"
    by auto
  show ?thesis
    using ne assms(2-9)
    by (simp add: Set_def EraseEdges_def CheckCircularError_def assign_impl_def
          SetCell_empty_def new_Cell_def formula_of_def set_formula_def ClearCache_def
          Let_def GetReferencedCells_def with_cache_def has_cache_at_def)
qed

theorem transitive_invalidation_end_to_end_witness:
  "distinct [''A1'', ''B1'', ''C1'']
   \<and> references (single_reference ''B1'') = [''B1'']
   \<and> references (single_reference ''C1'') = [''C1'']
   \<and> \<not> has_cache (single_reference ''B1'') \<and> \<not> has_cache (single_reference ''C1'')
   \<and> hd ''5'' \<noteq> CHR ''=''
   \<and> (\<exists>sheet1 sheet2 sheet3 memo3 sheet4 state5.
         Set (CHR ''='') single_reference (fmupd ''A1'' new_Cell fmempty) ''A1'' ''=B1''
           = Returns sheet1
       \<and> Set (CHR ''='') single_reference sheet1 ''B1'' ''=C1'' = Returns sheet2
       \<and> GetValue_memo 3 (CHR 0x27) example_compute (sheet2, fmempty) ''A1''
            = Some (Some (DoubleValue 0), (sheet3, memo3))
       \<and> has_cache_at sheet3 ''A1'' \<and> has_cache_at sheet3 ''B1''
       \<and> GetValue_memo 3 (CHR 0x27) example_compute (sheet3, memo3) ''A1''
            = Some (Some (DoubleValue 0), (sheet3, memo3))
       \<and> Set (CHR ''='') single_reference sheet3 ''C1'' ''5'' = Returns sheet4
       \<and> \<not> has_cache_at sheet4 ''A1'' \<and> \<not> has_cache_at sheet4 ''B1''
       \<and> (\<exists>cell. GetCell sheet4 ''C1'' = Some cell \<and> impl cell = Some (TextImpl ''5''))
       \<and> GetValue_memo 3 (CHR 0x27) example_compute (sheet4, memo3) ''A1''
            = Some (Some (DoubleValue 5), state5))"
proof -
  have d: "distinct [''A1'', ''B1'', ''C1'']" by simp
  have b: "references (single_reference ''B1'') = [''B1'']" by (simp add: single_reference_def)
  have c: "references (single_reference ''C1'') = [''C1'']" by (simp add: single_reference_def)
  have nb: "\<not> has_cache (single_reference ''B1'')" by (simp add: single_reference_def)
  have nc: "\<not> has_cache (single_reference ''C1'')" by (simp add: single_reference_def)
  have h: "hd ''5'' \<noteq> CHR ''=''" by simp
  have v0: "formula_value (example_compute (expression (single_reference ''B1''))
              [Some (formula_value (example_compute (expression (single_reference ''C1''))
                 [Some (StringValue [])]))]) = DoubleValue 0"
    by (simp add: example_compute_def formula_value_def)
  have v5: "formula_value (example_compute (expression (single_reference ''B1''))
              [Some (formula_value (example_compute (expression (single_reference ''C1''))
                 [Some (if hd ''5'' = CHR 0x27 then StringValue (tl ''5'')
                        else StringValue ''5'')]))]) = DoubleValue 5"
    by (simp add: example_compute_def formula_value_def)
  have n3: "Suc (Suc (Suc 0)) = 3" by simp
  from transitive_invalidation_end_to_end[OF d b c nb nc _ _ _ h,
         where fuel = 0 and ESCAPE_SIGN = "CHR 0x27" and compute = example_compute
           and memo = fmempty, unfolded v0 v5 n3]
  have "\<exists>sheet1 sheet2 sheet3 memo3 sheet4 state5.
         Set (CHR ''='') single_reference (fmupd ''A1'' new_Cell fmempty) ''A1'' ''=B1''
           = Returns sheet1
       \<and> Set (CHR ''='') single_reference sheet1 ''B1'' ''=C1'' = Returns sheet2
       \<and> GetValue_memo 3 (CHR 0x27) example_compute (sheet2, fmempty) ''A1''
            = Some (Some (DoubleValue 0), (sheet3, memo3))
       \<and> has_cache_at sheet3 ''A1'' \<and> has_cache_at sheet3 ''B1''
       \<and> GetValue_memo 3 (CHR 0x27) example_compute (sheet3, memo3) ''A1''
            = Some (Some (DoubleValue 0), (sheet3, memo3))
       \<and> Set (CHR ''='') single_reference sheet3 ''C1'' ''5'' = Returns sheet4
       \<and> \<not> has_cache_at sheet4 ''A1'' \<and> \<not> has_cache_at sheet4 ''B1''
       \<and> (\<exists>cell. GetCell sheet4 ''C1'' = Some cell \<and> impl cell = Some (TextImpl ''5''))
       \<and> GetValue_memo 3 (CHR 0x27) example_compute (sheet4, memo3) ''A1''
            = Some (Some (DoubleValue 5), state5)"
    by simp
  with d b c nb nc h show ?thesis by (intro conjI)
qed

text \<open>
  C10. A freshly constructed cell has no content, and GetText, GetValue and
  GetReferencedCells are undefined on it. After a Set that returns, the three reads are
  defined on the cell that was set, and a cell that the call created is Empty: its text
  and value are the empty string and it references nothing.
\<close>

theorem reads_need_content:
  "GetText FORMULA_SIGN (new_Cell :: 'p Cell) = None
   \<and> GetValue ESCAPE_SIGN Evaluate sh (new_Cell :: 'p Cell) = None
   \<and> GetReferencedCells (new_Cell :: 'p Cell) = None
   \<and> (Set FORMULA_SIGN ParseFormula sheet pos text = Returns sheet'
        \<longrightarrow> (\<exists>cell. GetCell sheet' pos = Some cell
               \<and> GetText FORMULA_SIGN cell \<noteq> None
               \<and> GetValue ESCAPE_SIGN Evaluate sh cell \<noteq> None
               \<and> GetReferencedCells cell \<noteq> None))
   \<and> (Set FORMULA_SIGN ParseFormula sheet pos text = Returns sheet'
        \<and> GetCell sheet p = None \<and> GetCell sheet' p = Some created
        \<longrightarrow> GetText FORMULA_SIGN created = Some []
            \<and> GetValue ESCAPE_SIGN Evaluate sh created = Some (StringValue [])
            \<and> GetReferencedCells created = Some [])"
proof (intro conjI impI)
  show "GetText FORMULA_SIGN (new_Cell :: 'p Cell) = None"
    by (simp add: GetText_def new_Cell_def)
  show "GetValue ESCAPE_SIGN Evaluate sh (new_Cell :: 'p Cell) = None"
    by (simp add: GetValue_def new_Cell_def)
  show "GetReferencedCells (new_Cell :: 'p Cell) = None"
    by (simp add: GetReferencedCells_def new_Cell_def)
next
  assume "Set FORMULA_SIGN ParseFormula sheet pos text = Returns sheet'"
  from Set_Returns_impl[OF this] obtain cell i where
    "GetCell sheet' pos = Some cell" "impl cell = Some i" by blast
  then show "\<exists>cell. GetCell sheet' pos = Some cell
               \<and> GetText FORMULA_SIGN cell \<noteq> None
               \<and> GetValue ESCAPE_SIGN Evaluate sh cell \<noteq> None
               \<and> GetReferencedCells cell \<noteq> None"
    by (simp add: GetText_def GetValue_def GetReferencedCells_def)
next
  assume a: "Set FORMULA_SIGN ParseFormula sheet pos text = Returns sheet'
        \<and> GetCell sheet p = None \<and> GetCell sheet' p = Some created"
  then have r: "Set FORMULA_SIGN ParseFormula sheet pos text = Returns sheet'"
    and n: "GetCell sheet p = None" and c: "GetCell sheet' p = Some created" by simp_all
  from Set_Returns_new_cells[OF r n] c have i: "impl created = Some EmptyImpl"
    by (auto split: if_splits)
  show "GetText FORMULA_SIGN created = Some []" by (simp add: GetText_def i)
  show "GetValue ESCAPE_SIGN Evaluate sh created = Some (StringValue [])"
    by (simp add: GetValue_def i)
  show "GetReferencedCells created = Some []" by (simp add: GetReferencedCells_def i)
qed

theorem reads_need_content_witness:
  "Set (CHR ''='') single_reference (chain_sheet False False) ''C1'' ''=D1''
     = Returns chain_sheet_D1
   \<and> (\<exists>cell. GetCell chain_sheet_D1 ''C1'' = Some cell
         \<and> GetText (CHR ''='') cell \<noteq> None
         \<and> GetValue (CHR 0x27) (\<lambda>f u. Inl 0 :: nat + unit) () cell \<noteq> None
         \<and> GetReferencedCells cell \<noteq> None)
   \<and> GetCell (chain_sheet False False) ''D1'' = None
   \<and> GetCell chain_sheet_D1 ''D1''
       = Some \<lparr>impl = Some EmptyImpl, referring_cells = [''C1''], referenced_cells = []\<rparr>
   \<and> GetText (CHR ''='')
        \<lparr>impl = Some EmptyImpl, referring_cells = [''C1''], referenced_cells = []\<rparr> = Some []
   \<and> GetValue (CHR 0x27) (\<lambda>f u. Inl 0 :: nat + unit) ()
        \<lparr>impl = Some EmptyImpl, referring_cells = [''C1''], referenced_cells = []\<rparr>
       = Some (StringValue [])
   \<and> GetReferencedCells
        \<lparr>impl = Some EmptyImpl, referring_cells = [''C1''], referenced_cells = [] :: string list\<rparr>
       = Some []"
proof -
  have n: "GetCell (chain_sheet False False) ''D1'' = None"
    by (simp add: chain_sheet_def)
  have c: "GetCell chain_sheet_D1 ''D1''
       = Some \<lparr>impl = Some EmptyImpl, referring_cells = [''C1''], referenced_cells = []\<rparr>"
    by (simp add: chain_sheet_D1_def)
  from reads_need_content[of "CHR ''=''" "CHR 0x27" "\<lambda>f u. Inl 0 :: nat + unit" "()"
         single_reference "chain_sheet False False" "''C1''" "''=D1''" chain_sheet_D1 "''D1''"
         "\<lparr>impl = Some EmptyImpl, referring_cells = [''C1''], referenced_cells = []\<rparr>"]
    Set_chain_sheet_D1 n c
  show ?thesis by simp
qed

section \<open>Further properties\<close>

text \<open>
  X1. The invariant of the edge sets is kept by every call of Set, whether it returns
  or throws.
\<close>

theorem Set_keeps_well_formed:
  assumes "well_formed sheet"
    and "Set FORMULA_SIGN ParseFormula sheet pos text = Returns sheet'
         \<or> Set FORMULA_SIGN ParseFormula sheet pos text = Throws sheet'"
  shows "well_formed sheet'"
  using assms(2)
proof
  assume "Set FORMULA_SIGN ParseFormula sheet pos text = Returns sheet'"
  with assms(1) show ?thesis by (rule Set_keeps_well_formed_Returns)
next
  assume "Set FORMULA_SIGN ParseFormula sheet pos text = Throws sheet'"
  with assms(1) show ?thesis by (rule Set_keeps_well_formed_Throws)
qed

theorem Set_keeps_well_formed_witness:
  "well_formed (chain_sheet False False)
   \<and> Set (CHR ''='') single_reference (chain_sheet False False) ''C1'' ''=D1''
       = Returns chain_sheet_D1
   \<and> well_formed chain_sheet_D1"
proof -
  have w: "well_formed (chain_sheet False False)"
    by (simp add: well_formed_def chain_sheet_well_formed(3)
          chain_sheet_references_come_from_formulas)
  from Set_keeps_well_formed[OF w disjI1[OF Set_chain_sheet_D1]] w Set_chain_sheet_D1
  show ?thesis by blast
qed

text \<open>
  X2. On a sheet that satisfies the invariant and whose other cells all have content, a
  call of Set at an existing cell has no undefined behaviour; if it returns, every cell
  of the sheet has content, and if it throws, every cell but the one being set still has.
\<close>

theorem Set_defined_on_well_formed_sheets:
  assumes "well_formed sheet" and "others_initialised sheet pos"
    and "GetCell sheet pos = Some cell"
  shows "Set FORMULA_SIGN ParseFormula sheet pos text \<noteq> Undefined
         \<and> (\<forall>sheet' q. Set FORMULA_SIGN ParseFormula sheet pos text = Returns sheet'
               \<longrightarrow> others_initialised sheet' q)
         \<and> (\<forall>sheet'. Set FORMULA_SIGN ParseFormula sheet pos text = Throws sheet'
               \<longrightarrow> others_initialised sheet' pos)"
proof (intro conjI allI impI)
  show "Set FORMULA_SIGN ParseFormula sheet pos text \<noteq> Undefined"
    by (rule Set_defined[OF well_formed_referrers[OF assms(1)] assms(2,3)])
next
  fix sheet' q
  assume r: "Set FORMULA_SIGN ParseFormula sheet pos text = Returns sheet'"
  show "others_initialised sheet' q"
    unfolding others_initialised_def
    using Set_Returns_initialised[OF assms(2) r] by blast
next
  fix sheet'
  assume "Set FORMULA_SIGN ParseFormula sheet pos text = Throws sheet'"
  from Set_Throws_cases[OF this] have "EraseEdges sheet pos = Some sheet'" by simp
  from EraseEdges_others_initialised[OF this assms(2)]
  show "others_initialised sheet' pos" .
qed

theorem Set_defined_on_well_formed_sheets_witness:
  "well_formed (chain_sheet False False)
   \<and> others_initialised (chain_sheet False False) ''C1''
   \<and> Set (CHR ''='') single_reference (chain_sheet False False) ''C1'' ''=D1'' \<noteq> Undefined
   \<and> others_initialised chain_sheet_D1 ''A1''"
proof -
  have w: "well_formed (chain_sheet False False)"
    by (simp add: well_formed_def chain_sheet_well_formed(3)
          chain_sheet_references_come_from_formulas)
  have c: "GetCell (chain_sheet False False) ''C1''
             = Some \<lparr>impl = Some EmptyImpl, referring_cells = [''B1''], referenced_cells = []\<rparr>"
    by (simp add: chain_sheet_def)
  from Set_defined_on_well_formed_sheets[OF w chain_sheet_well_formed(2) c,
         of "CHR ''=''" single_reference "''=D1''"] Set_chain_sheet_D1
    w chain_sheet_well_formed(2)[of False False "''C1''"]
  show ?thesis by simp
qed

text \<open>
  X3. Acyclicity: if the references of the committed contents form no cycle, they form
  none after a call of Set, whether it returns or throws.
\<close>

theorem Set_keeps_contents_acyclic:
  assumes "acyclic (content_edge sheet)"
    and "Set FORMULA_SIGN ParseFormula sheet pos text = Returns sheet'
         \<or> Set FORMULA_SIGN ParseFormula sheet pos text = Throws sheet'"
  shows "acyclic (content_edge sheet')"
  using assms(2)
proof
  assume "Set FORMULA_SIGN ParseFormula sheet pos text = Returns sheet'"
  with assms(1) show ?thesis by (rule Set_Returns_acyclic)
next
  assume "Set FORMULA_SIGN ParseFormula sheet pos text = Throws sheet'"
  from Set_Throws_content_edge[OF this] assms(1) show ?thesis by simp
qed

theorem Set_keeps_contents_acyclic_witness:
  "acyclic (content_edge (fmupd ''A1'' new_Cell fmempty))
   \<and> Set (CHR ''='') single_reference (fmupd ''A1'' new_Cell fmempty) ''A1'' ''=B1''
     = Returns (fmupd ''A1''
                 \<lparr>impl = Some (FormulaImpl (single_reference ''B1'')), referring_cells = [],
                    referenced_cells = [''B1'']\<rparr>
               (fmupd ''B1''
                 \<lparr>impl = Some EmptyImpl, referring_cells = [''A1''], referenced_cells = []\<rparr>
                fmempty))
   \<and> acyclic (content_edge (fmupd ''A1''
                 \<lparr>impl = Some (FormulaImpl (single_reference ''B1'')), referring_cells = [],
                    referenced_cells = [''B1'']\<rparr>
               (fmupd ''B1''
                 \<lparr>impl = Some EmptyImpl, referring_cells = [''A1''], referenced_cells = []\<rparr>
                fmempty)))"
proof -
  have a: "acyclic (content_edge (fmupd ''A1'' (new_Cell :: string Cell) fmempty))"
    by (simp add: fresh_sheet_content_edge acyclic_def)
  from Set_keeps_contents_acyclic[OF a disjI1[OF Set_fresh_A1]] a Set_fresh_A1
  show ?thesis by blast
qed

text \<open>
  X4. A Set with a text that is not a formula removes the cell from the referring set of
  every cell that its referenced set named.
\<close>

theorem plain_content_drops_referring_entries:
  assumes "Set FORMULA_SIGN ParseFormula sheet pos text = Returns sheet'"
    and "\<not> (text \<noteq> [] \<and> hd text = FORMULA_SIGN \<and> 1 < length text)"
    and "GetCell sheet pos = Some cell" and "b \<in> set (referenced_cells cell)"
    and "GetCell sheet' b = Some cell_b"
  shows "pos \<notin> set (referring_cells cell_b)"
proof
  assume "pos \<in> set (referring_cells cell_b)"
  with assms(5) have "(b, pos) \<in> referring_edges sheet'" by (auto simp: referring_edges_def)
  moreover from assms(3,4) have "(pos, b) \<in> referenced_edges sheet"
    by (auto simp: referenced_edges_def)
  ultimately show False
    unfolding Set_Returns_plain_edges(2)[OF assms(1,2)] by simp
qed

theorem plain_content_drops_referring_entries_witness:
  "Set (CHR ''='') single_reference (chain_sheet False False) ''B1'' ''text''
     = Returns (fmupd ''B1''
                  \<lparr>impl = Some (TextImpl ''text''), referring_cells = [''A1''],
                     referenced_cells = []\<rparr>
               (fmupd ''C1''
                  \<lparr>impl = Some EmptyImpl, referring_cells = [], referenced_cells = []\<rparr>
                  (chain_sheet False False)))
   \<and> ''C1'' \<in> set [''C1'']
   \<and> ''B1'' \<notin> set (referring_cells
        \<lparr>impl = Some EmptyImpl, referring_cells = [], referenced_cells = [] :: string list\<rparr>)"
proof -
  have c: "GetCell (chain_sheet False False) ''B1''
     = Some \<lparr>impl = Some (FormulaImpl \<lparr>expression = ''C1'', references = [''C1''],
                                  has_cache = False\<rparr>),
        referring_cells = [''A1''], referenced_cells = [''C1'']\<rparr>"
    by (simp add: chain_sheet_def)
  have t: "\<not> (''text'' \<noteq> [] \<and> hd ''text'' = CHR ''='' \<and> 1 < length ''text'')" by simp
  have g: "GetCell (fmupd ''B1''
                  \<lparr>impl = Some (TextImpl ''text''), referring_cells = [''A1''],
                     referenced_cells = []\<rparr>
               (fmupd ''C1''
                  \<lparr>impl = Some EmptyImpl, referring_cells = [], referenced_cells = []\<rparr>
                  (chain_sheet False False))) ''C1''
       = Some \<lparr>impl = Some EmptyImpl, referring_cells = [], referenced_cells = []\<rparr>"
    by simp
  from plain_content_drops_referring_entries[OF Set_chain_sheet_text t c _ g]
    Set_chain_sheet_text
  show ?thesis by simp
qed

text \<open>
  X5. Set with the empty text never throws; when it returns, the cell is Empty, its
  text and value are the empty string, and it has no outgoing references, whatever it
  held before.
\<close>

theorem empty_text_yields_Empty:
  "Set FORMULA_SIGN ParseFormula sheet pos [] \<noteq> Throws sheet''
   \<and> (Set FORMULA_SIGN ParseFormula sheet pos [] = Returns sheet'
       \<longrightarrow> (\<exists>cell. GetCell sheet' pos = Some cell
              \<and> impl cell = Some EmptyImpl
              \<and> GetText FORMULA_SIGN cell = Some []
              \<and> GetValue ESCAPE_SIGN Evaluate sh cell = Some (StringValue [])
              \<and> GetReferencedCells cell = Some []
              \<and> referenced_cells cell = []))"
proof (intro conjI impI)
  show "Set FORMULA_SIGN ParseFormula sheet pos [] \<noteq> Throws sheet''"
    using Set_Throws_cases[of FORMULA_SIGN ParseFormula sheet pos "[]" sheet''] by blast
next
  assume r: "Set FORMULA_SIGN ParseFormula sheet pos [] = Returns sheet'"
  from Set_Returns_impl[OF r] obtain cell where
    c: "GetCell sheet' pos = Some cell" and i: "impl cell = Some EmptyImpl" by auto
  have "(pos, b) \<notin> referenced_edges sheet'" for b
    using Set_Returns_plain_edges(1)[OF r] by simp
  with c have "b \<notin> set (referenced_cells cell)" for b
    by (auto simp: referenced_edges_def)
  then have "referenced_cells cell = []" by (cases "referenced_cells cell") auto
  with c i show "\<exists>cell. GetCell sheet' pos = Some cell
              \<and> impl cell = Some EmptyImpl
              \<and> GetText FORMULA_SIGN cell = Some []
              \<and> GetValue ESCAPE_SIGN Evaluate sh cell = Some (StringValue [])
              \<and> GetReferencedCells cell = Some []
              \<and> referenced_cells cell = []"
    by (simp add: GetText_def GetValue_def GetReferencedCells_def)
qed

theorem empty_text_yields_Empty_witness:
  "Set (CHR ''='') single_reference (chain_sheet False False) ''A1'' []
     = Returns (fmupd ''B1''
                  \<lparr>impl = Some (FormulaImpl (single_reference ''C1'')), referring_cells = [],
                     referenced_cells = [''C1'']\<rparr>
               (fmupd ''A1''
                  \<lparr>impl = Some EmptyImpl, referring_cells = [], referenced_cells = []\<rparr>
                  (chain_sheet False False)))
   \<and> (\<exists>cell. GetCell (fmupd ''B1''
                  \<lparr>impl = Some (FormulaImpl (single_reference ''C1'')), referring_cells = [],
                     referenced_cells = [''C1'']\<rparr>
               (fmupd ''A1''
                  \<lparr>impl = Some EmptyImpl, referring_cells = [], referenced_cells = []\<rparr>
                  (chain_sheet False False))) ''A1'' = Some cell
         \<and> impl cell = Some EmptyImpl
         \<and> GetText (CHR ''='') cell = Some []
         \<and> GetValue (CHR 0x27) (\<lambda>f u. Inl 0 :: nat + unit) () cell = Some (StringValue [])
         \<and> GetReferencedCells cell = Some []
         \<and> referenced_cells cell = [])"
  using empty_text_yields_Empty[of "CHR ''=''" single_reference "chain_sheet False False"
          "''A1''" undefined _ "CHR 0x27" "\<lambda>f u. Inl 0 :: nat + unit" "()"]
    Set_chain_sheet_empty
  by (simp add: GetText_def GetValue_def GetReferencedCells_def)

end
